theory Spec2Isabelle
  imports Main "HOL-Library.Sublist" "HOL-Library.AList"
begin

section \<open>Python strings\<close>

text \<open>
  A Python \<open>str\<close> is a sequence of Unicode code points, so a string is a list of code
  points and \<open>length\<close> counts what Python's \<open>len\<close> counts. The bullet glyph of the
  source is the single code point U+2022. ASCII literals are written through \<open>ascii\<close>.
\<close>

type_synonym ustring = "nat list"

definition ascii :: "string \<Rightarrow> ustring" where
  "ascii s = map of_char s"

definition nl :: nat where
  "nl = 10"

definition bullet :: nat where
  "bullet = 8226"

text \<open>
  \<open>str.strip()\<close> without argument removes leading and trailing whitespace; the code
  points below are the ones CPython treats as whitespace (the ASCII table and
  \<open>_PyUnicode_IsWhitespace\<close>).
\<close>

definition isspace :: "nat \<Rightarrow> bool" where
  "isspace c \<longleftrightarrow>
     (9 \<le> c \<and> c \<le> 13) \<or> (28 \<le> c \<and> c \<le> 32) \<or> c = 133 \<or> c = 160 \<or> c = 5760 \<or>
     (8192 \<le> c \<and> c \<le> 8202) \<or> c = 8232 \<or> c = 8233 \<or> c = 8239 \<or> c = 8287 \<or> c = 12288"

definition str_strip :: "ustring \<Rightarrow> ustring" where
  "str_strip s = rev (dropWhile isspace (rev (dropWhile isspace s)))"

text \<open>
  \<open>s.replace(old, new)\<close>: the occurrences of \<open>old\<close> are found from the left and do not
  overlap. With an empty \<open>old\<close> Python puts \<open>new\<close> before every character and at the
  end.
\<close>

function str_replace_from :: "ustring \<Rightarrow> ustring \<Rightarrow> ustring \<Rightarrow> ustring" where
  "str_replace_from old new [] = []"
| "str_replace_from old new (c # cs) =
     (if old \<noteq> [] \<and> prefix old (c # cs)
      then new @ str_replace_from old new (drop (length old) (c # cs))
      else c # str_replace_from old new cs)"
  by pat_completeness auto
termination
  by (relation "measure (\<lambda>(old, new, s). length s)") auto

definition str_replace :: "ustring \<Rightarrow> ustring \<Rightarrow> ustring \<Rightarrow> ustring" where
  "str_replace old new s =
     (if old = [] then new @ concat (map (\<lambda>c. c # new) s) else str_replace_from old new s)"

text \<open>
  \<open>s.split(sep)\<close> with a separator: the pieces between the occurrences of \<open>sep\<close>, found
  from the left without overlap; the result always has at least one piece. Python raises
  ValueError for an empty separator; the source only passes the literals \<open>'\n\n\n\n'\<close>
  and \<open>'\n'\<close>, and the model leaves the string whole in that case.
\<close>

function str_split :: "ustring \<Rightarrow> ustring \<Rightarrow> ustring list" where
  "str_split sep [] = [[]]"
| "str_split sep (c # cs) =
     (if sep \<noteq> [] \<and> prefix sep (c # cs)
      then [] # str_split sep (drop (length sep) (c # cs))
      else (case str_split sep cs of
              [] \<Rightarrow> [[c]]
            | p # ps \<Rightarrow> (c # p) # ps))"
  by pat_completeness auto
termination
  by (relation "measure (\<lambda>(sep, s). length s)") auto

fun str_join :: "ustring \<Rightarrow> ustring list \<Rightarrow> ustring" where
  "str_join sep [] = []"
| "str_join sep [x] = x"
| "str_join sep (x # y # ys) = x @ sep @ str_join sep (y # ys)"

text \<open>\<open>sub in s\<close> on strings, \<open>s.startswith(p)\<close> and \<open>s.endswith(p)\<close>.\<close>

fun str_contains :: "ustring \<Rightarrow> ustring \<Rightarrow> bool" where
  "str_contains sub [] = (sub = [])"
| "str_contains sub (c # cs) = (prefix sub (c # cs) \<or> str_contains sub cs)"

definition str_startswith :: "ustring \<Rightarrow> ustring \<Rightarrow> bool" where
  "str_startswith s p = prefix p s"

definition str_endswith :: "ustring \<Rightarrow> ustring \<Rightarrow> bool" where
  "str_endswith s p = suffix p s"

text \<open>
  \<open>s.lower()\<close>, on the ASCII letters. The source lowers only the keys of
  \<open>analysis_options\<close>, which are ASCII; other code points are left as they are.
\<close>

definition str_lower :: "ustring \<Rightarrow> ustring" where
  "str_lower s = map (\<lambda>c. if 65 \<le> c \<and> c \<le> 90 then c + 32 else c) s"

section \<open>Analysis options and prompt construction\<close>

text \<open>
  \<open>analysis_options\<close> is a dict literal; its keys are distinct, and the association list
  keeps the insertion order that \<open>.keys()\<close> iterates in.
\<close>

record analysis_option =
  description :: ustring
  prompt :: ustring

definition analysis_options :: "(ustring \<times> analysis_option) list" where
  "analysis_options =
    [(ascii ''Quick Overview'',
      \<lparr>description = ascii ''Get a rapid summary of the resume's key strengths and areas'',
       prompt =
         ascii ''\<newline>'' @
         ascii ''        Provide a comprehensive overview of this resume including key strengths and notable areas for improvement.\<newline>'' @
         ascii ''        Focus on the candidate's experience, skills, and overall presentation.\<newline>'' @
         ascii ''        ''\<rparr>),
     (ascii ''Issues Analysis'',
      \<lparr>description = ascii ''Identify specific weaknesses and improvement areas'',
       prompt =
         ascii ''\<newline>'' @
         ascii ''        Analyze this resume and identify specific issues, weaknesses, and areas that need improvement.\<newline>'' @
         ascii ''        For each issue identified, mark it with [WEAKNESS] and provide specific suggestions for enhancement.\<newline>'' @
         ascii ''        ''\<rparr>),
     (ascii ''Enhancement Tips'',
      \<lparr>description = ascii ''Get actionable tips to improve the resume'',
       prompt =
         ascii ''\<newline>'' @
         ascii ''        Provide specific, actionable tips to enhance this resume.\<newline>'' @
         ascii ''        Mark positive aspects with [STRENGTH] and improvement suggestions with [WEAKNESS].\<newline>'' @
         ascii ''        Include formatting, content, and presentation recommendations.\<newline>'' @
         ascii ''        ''\<rparr>),
     (ascii ''Job Matching'',
      \<lparr>description = ascii ''Analyze how well the resume matches the job requirements'',
       prompt =
         ascii ''\<newline>'' @
         ascii ''        Compare this resume against the job description and analyze the match.\<newline>'' @
         ascii ''        Mark matching qualifications with [STRENGTH] and gaps with [WEAKNESS].\<newline>'' @
         ascii ''        Provide a match percentage and specific recommendations.\<newline>'' @
         ascii ''        ''\<rparr>),
     (ascii ''Complete Analysis'',
      \<lparr>description = ascii ''Comprehensive analysis covering all aspects'',
       prompt =
         ascii ''\<newline>'' @
         ascii ''        Provide a complete analysis of this resume, covering all aspects including strengths, weaknesses, and job matching.\<newline>'' @
         ascii ''        ''\<rparr>)]"

text \<open>
  The f-string of the single-analysis branch of the Results page:
  \<open>prompt_data['prompt']\<close>, then \<open>resume_text[:4000]\<close> and the job description between
  fixed lines.
\<close>

definition full_prompt :: "ustring \<Rightarrow> ustring \<Rightarrow> ustring \<Rightarrow> ustring" where
  "full_prompt prompt_text resume_text job_description =
     prompt_text @
     ascii ''\<newline>'' @
     ascii ''                Resume Content:\<newline>'' @
     ascii ''                '' @
     take 4000 resume_text @
     ascii ''\<newline>'' @
     ascii ''                Job Description:\<newline>'' @
     ascii ''                '' @
     job_description @
     ascii ''\<newline>'' @
     ascii ''                Please provide detailed analysis with specific examples and actionable recommendations.''"

text \<open>The f-string of the Complete Analysis loop (the same lines, indented deeper).\<close>

definition full_prompt_step :: "ustring \<Rightarrow> ustring \<Rightarrow> ustring \<Rightarrow> ustring" where
  "full_prompt_step step_prompt resume_text job_description =
     step_prompt @
     ascii ''\<newline>'' @
     ascii ''                    Resume Content:\<newline>'' @
     ascii ''                    '' @
     take 4000 resume_text @
     ascii ''\<newline>'' @
     ascii ''                    Job Description:\<newline>'' @
     ascii ''                    '' @
     job_description @
     ascii ''\<newline>'' @
     ascii ''                    Please provide detailed analysis with specific examples and actionable recommendations.''"

definition analysis_steps :: "(ustring \<times> ustring) list" where
  "analysis_steps =
     [(ascii ''Quick Overview'', ascii ''overview''),
      (ascii ''Issues Analysis'', ascii ''issues''),
      (ascii ''Enhancement Tips'', ascii ''tips''),
      (ascii ''Job Matching'', ascii ''matching'')]"

text \<open>
  \<open>[k for k in analysis_options.keys() if step_key in k.lower().replace(" ", "")]\<close>
\<close>

definition step_options :: "ustring \<Rightarrow> ustring list" where
  "step_options step_key =
     filter (\<lambda>k. str_contains step_key (str_replace (ascii '' '') [] (str_lower k)))
       (map fst analysis_options)"

text \<open>
  The prompt of one step of the Complete Analysis loop: none when \<open>step_options\<close> is
  empty (the \<open>if step_options:\<close> guard), else the f-string over the prompt of its first
  entry.
\<close>

definition step_full_prompt :: "ustring \<Rightarrow> ustring \<Rightarrow> ustring \<Rightarrow> ustring option" where
  "step_full_prompt step_key resume_text job_description =
     (case step_options step_key of
        [] \<Rightarrow> None
      | k # _ \<Rightarrow>
          (case map_of analysis_options k of
             None \<Rightarrow> None
           | Some d \<Rightarrow> Some (full_prompt_step (prompt d) resume_text job_description)))"

text \<open>
  The prompts the Results page builds for a selected analysis type: the four step prompts
  for \<open>Complete Analysis\<close>, one prompt for any other key of \<open>analysis_options\<close>, none
  when \<open>analysis_options.get(analysis_type, {})\<close> is empty.
\<close>

definition results_prompts :: "ustring \<Rightarrow> ustring \<Rightarrow> ustring \<Rightarrow> ustring list" where
  "results_prompts analysis_type resume_text job_description =
     (if analysis_type = ascii ''Complete Analysis''
      then concat (map (\<lambda>(step_name, step_key).
             (case step_full_prompt step_key resume_text job_description of
                None \<Rightarrow> []
              | Some p \<Rightarrow> [p])) analysis_steps)
      else (case map_of analysis_options analysis_type of
              None \<Rightarrow> []
            | Some d \<Rightarrow> [full_prompt (prompt d) resume_text job_description]))"

section \<open>Exceptions and user interface messages\<close>

text \<open>
  A Python exception is a value; every constructor carries the text that \<open>str(e)\<close>
  gives. \<open>Exception\<close> stands for whatever an external library raises (the rasteriser,
  the OCR engine, the PDF reader, the HTTP client); the other constructors are raised by
  the interpreter itself. All of them are subclasses of Python's \<open>Exception\<close>, which is
  what every \<open>except Exception\<close> clause of the source catches.
\<close>

datatype exn =
    Exception ustring
  | IndexError ustring
  | KeyError ustring
  | TypeError ustring
  | AttributeError ustring

fun str_exn :: "exn \<Rightarrow> ustring" where
  "str_exn (Exception t) = t"
| "str_exn (IndexError t) = t"
| "str_exn (KeyError t) = t"
| "str_exn (TypeError t) = t"
| "str_exn (AttributeError t) = t"

text \<open>
  The calls \<open>st.warning\<close>, \<open>st.error\<close>, \<open>st.info\<close>, \<open>st.success\<close> and
  \<open>st.markdown\<close>, in the order they are made.
\<close>

datatype message =
    Warning ustring
  | Error ustring
  | Info ustring
  | Success ustring
  | Markdown ustring

text \<open>\<open>str(n)\<close> for an integer, as an f-string renders it.\<close>

function digits :: "nat \<Rightarrow> ustring" where
  "digits n = (if n < 10 then [48 + n] else digits (n div 10) @ [48 + n mod 10])"
  by pat_completeness auto
termination
  by (relation "measure (\<lambda>n. n)") auto

definition str_int :: "int \<Rightarrow> ustring" where
  "str_int i = (if i < 0 then 45 # digits (nat (- i)) else digits (nat i))"

section \<open>Result formatter\<close>

text \<open>
  The body of the \<open>for section in sections\<close> loop of \<open>format_analysis_result\<close>: the
  lines one section appends to \<open>formatted_lines\<close>. A section that is empty after
  \<open>strip\<close> is skipped (\<open>continue\<close>); a section whose first line ends with a colon gives
  its heading and its non-empty stripped lines; any other section is appended whole.
\<close>

definition format_section :: "ustring \<Rightarrow> ustring list" where
  "format_section section0 =
     (let section = str_strip section0 in
      if section = [] then []
      else
        let lines = str_split [nl] section in
        if length lines > 0 then
          let heading = str_strip (hd lines) in
          if str_endswith heading (ascii '':'')
          then heading # filter (\<lambda>line. line \<noteq> []) (map str_strip (tl lines))
          else [section]
        else [])"

text \<open>
  \<open>format_analysis_result\<close>. The first \<open>replace\<close> of the source has an empty pattern
  and an empty replacement; the asterisk is removed twice, as written.
\<close>

definition format_analysis_result :: "ustring \<Rightarrow> ustring" where
  "format_analysis_result content0 =
     (if content0 = [] then ascii ''<p>No content to display.</p>''
      else
        let content = str_replace [] [] content0;
            content = str_replace (ascii ''*'') [] content;
            content = str_replace (ascii ''+'') [] content;
            content = str_replace [bullet] [] content;
            content = str_replace (ascii ''*'') [] content;
            content = str_replace (ascii ''[STRENGTH]'') [] content;
            content = str_replace (ascii ''[WEAKNESS]'') [] content;
            sections = str_split [nl, nl, nl, nl] content;
            formatted_lines = concat (map format_section sections)
        in str_join (ascii ''<br>'') formatted_lines)"

text \<open>
  The spec's "already-clean text" (claim C10), in the spec's words: no tag markers, and
  no bullet glyph (\<open>*\<close>, \<open>+\<close> or the bullet) at the start or at the end.
\<close>

definition bullet_glyph :: "nat \<Rightarrow> bool" where
  "bullet_glyph c \<longleftrightarrow> c = 42 \<or> c = 43 \<or> c = bullet"

definition already_clean :: "ustring \<Rightarrow> bool" where
  "already_clean x \<longleftrightarrow>
     \<not> str_contains (ascii ''[STRENGTH]'') x \<and> \<not> str_contains (ascii ''[WEAKNESS]'') x \<and>
     (x \<noteq> [] \<longrightarrow> \<not> bullet_glyph (hd x) \<and> \<not> bullet_glyph (last x))"

text \<open>
  A text on which \<open>format_analysis_result\<close> has nothing left to do, apart from the
  removal of glyphs and markers: it is one section (no run of four newlines), it starts
  and ends with a character that is not whitespace, and when it has more than one line its
  first line is not a heading.
\<close>

definition settled :: "ustring \<Rightarrow> bool" where
  "settled e \<longleftrightarrow>
     e \<noteq> [] \<and> \<not> isspace (hd e) \<and> \<not> isspace (last e) \<and> \<not> sublist [nl, nl, nl, nl] e \<and>
     (nl \<in> set e \<longrightarrow>
        \<not> str_endswith (str_strip (takeWhile (\<lambda>x. x \<noteq> nl) e)) (ascii '':''))"

section \<open>Document extractor\<close>

text \<open>
  \<open>process_pdf\<close> calls three external libraries. What they do on a given file is a
  parameter of the model: each call either raises or returns.
  \<^item> \<open>convert_from_bytes\<close>: \<open>pdf2image.convert_from_bytes(bytes_data, dpi=200, ...)\<close>,
    the raster images of all pages;
  \<^item> \<open>image_to_string\<close>: \<open>pytesseract.image_to_string(img, config="--psm 6")\<close>;
  \<^item> \<open>pdf_pages\<close>: \<open>pdfplumber.open(...)\<close> and its \<open>pages\<close>; a page is represented by
    what \<open>page.extract_text()\<close> does on it: it raises, or returns \<open>None\<close> or a string;
  \<^item> \<open>convert_page\<close>: \<open>convert_from_bytes(bytes_data, dpi=150, first_page=n, last_page=n,
    ...)\<close>, the list the preview takes element \<open>[0]\<close> of.
  \<open>USE_PDF2IMAGE\<close> and \<open>HAS_POPPLER\<close> are the module-level flags, read for their truth
  value only.
\<close>

type_synonym bytes = "nat list"

datatype image = Image nat

type_synonym page = "exn + ustring option"

record extract_env =
  USE_PDF2IMAGE :: bool
  HAS_POPPLER :: bool
  convert_from_bytes :: "bytes \<Rightarrow> exn + image list"
  image_to_string :: "image \<Rightarrow> exn + ustring"
  pdf_pages :: "bytes \<Rightarrow> exn + page list"
  convert_page :: "bytes \<Rightarrow> nat \<Rightarrow> exn + image list"

text \<open>The uploaded file: its MIME type (\<open>uploaded_file.type\<close>) and its content.\<close>

record uploaded_file =
  file_type :: ustring
  getvalue :: bytes

text \<open>
  The two local lists of \<open>process_pdf\<close>, which both routes append to, and the messages
  shown so far.
\<close>

record extract_state =
  text_bits :: "ustring list"
  preview :: "image list"
  messages :: "message list"

text \<open>
  The loop of the OCR route, \<open>for i, img in enumerate(images)\<close>. The result is the
  exception that ended the loop, if any, and the state reached: what was appended before
  the exception stays appended.
\<close>

fun ocr_pages :: "extract_env \<Rightarrow> nat \<Rightarrow> image list \<Rightarrow> extract_state \<Rightarrow> exn option \<times> extract_state" where
  "ocr_pages env i [] s = (None, s)"
| "ocr_pages env i (img # images) s =
     (let s1 = (if i < 2 then s\<lparr>preview := preview s @ [img]\<rparr> else s) in
      case image_to_string env img of
        Inl e \<Rightarrow> (Some e, s1)
      | Inr t \<Rightarrow> ocr_pages env (Suc i) images (s1\<lparr>text_bits := text_bits s1 @ [t]\<rparr>))"

text \<open>The body of the first \<open>try\<close>: \<open>Inl\<close> is the exception its \<open>except\<close> clause receives.\<close>

definition ocr_route :: "extract_env \<Rightarrow> bytes \<Rightarrow> extract_state \<Rightarrow> (exn + ustring \<times> image list) \<times> extract_state" where
  "ocr_route env bytes_data s =
     (case convert_from_bytes env bytes_data of
        Inl e \<Rightarrow> (Inl e, s)
      | Inr images \<Rightarrow>
          (case ocr_pages env 0 images s of
             (Some e, s1) \<Rightarrow> (Inl e, s1)
           | (None, s1) \<Rightarrow> (Inr (str_join [nl, nl] (text_bits s1), preview s1), s1)))"

text \<open>
  The optional preview of the text route, with its own \<open>try\<close>: a raising rasteriser
  and an empty result (IndexError at \<open>[0]\<close>) are both passed over.
\<close>

definition page_preview :: "extract_env \<Rightarrow> bytes \<Rightarrow> nat \<Rightarrow> extract_state \<Rightarrow> extract_state" where
  "page_preview env bytes_data i s =
     (if HAS_POPPLER env \<and> i < 2
      then (case convert_page env bytes_data (i + 1) of
              Inl e \<Rightarrow> s
            | Inr [] \<Rightarrow> s
            | Inr (preview_img # _) \<Rightarrow> s\<lparr>preview := preview s @ [preview_img]\<rparr>)
      else s)"

text \<open>The loop of the text route; \<open>page.extract_text() or ""\<close> is the appended text.\<close>

fun text_pages :: "extract_env \<Rightarrow> bytes \<Rightarrow> nat \<Rightarrow> page list \<Rightarrow> extract_state \<Rightarrow> exn option \<times> extract_state" where
  "text_pages env bytes_data i [] s = (None, s)"
| "text_pages env bytes_data i (page # pages) s =
     (case page of
        Inl e \<Rightarrow> (Some e, s)
      | Inr extracted \<Rightarrow>
          (let s1 = s\<lparr>text_bits := text_bits s @ [case extracted of None \<Rightarrow> [] | Some t \<Rightarrow> t]\<rparr>
           in text_pages env bytes_data (Suc i) pages (page_preview env bytes_data i s1)))"

text \<open>The body of the second \<open>try\<close>.\<close>

definition text_route :: "extract_env \<Rightarrow> bytes \<Rightarrow> extract_state \<Rightarrow> (exn + ustring \<times> image list) \<times> extract_state" where
  "text_route env bytes_data s =
     (case pdf_pages env bytes_data of
        Inl e \<Rightarrow> (Inl e, s)
      | Inr pages \<Rightarrow>
          (case text_pages env bytes_data 0 pages s of
             (Some e, s1) \<Rightarrow> (Inl e, s1)
           | (None, s1) \<Rightarrow> (Inr (str_join [nl, nl] (text_bits s1), preview s1), s1)))"

text \<open>The second \<open>try\<close> with its \<open>except\<close> clause: the end of \<open>process_pdf\<close>.\<close>

definition text_fallback :: "extract_env \<Rightarrow> bytes \<Rightarrow> extract_state \<Rightarrow> (exn + ustring \<times> image list) \<times> message list" where
  "text_fallback env bytes_data s =
     (case text_route env bytes_data s of
        (Inr r, s1) \<Rightarrow> (Inr r, messages s1)
      | (Inl e, s1) \<Rightarrow>
          (Inr ([], []),
           messages s1 @ [Error (ascii ''Could not extract anything from this PDF: '' @ str_exn e)]))"

text \<open>
  \<open>process_pdf\<close>. The result is what the caller receives, \<open>Inr (text, preview_images)\<close> for
  a returned pair and \<open>Inl\<close> for an exception that leaves the function, together with the
  messages shown. \<open>uploaded_file\<close> is \<open>None\<close> when nothing was uploaded.
\<close>

definition process_pdf :: "extract_env \<Rightarrow> uploaded_file option \<Rightarrow> (exn + ustring \<times> image list) \<times> message list" where
  "process_pdf env uploaded =
     (case uploaded of
        None \<Rightarrow> (Inr ([], []), [])
      | Some f \<Rightarrow>
          if file_type f \<noteq> ascii ''application/pdf'' then (Inr ([], []), [])
          else
            let bytes_data = getvalue f;
                s0 = \<lparr>text_bits = [], preview = [], messages = []\<rparr>
            in
              if USE_PDF2IMAGE env
              then (case ocr_route env bytes_data s0 of
                      (Inr r, s1) \<Rightarrow> (Inr r, messages s1)
                    | (Inl e, s1) \<Rightarrow>
                        text_fallback env bytes_data
                          (s1\<lparr>messages := messages s1 @
                             [Warning (ascii ''OCR pipeline failed ('' @ str_exn e @ ascii '') '' @
                                [8211] @ ascii '' falling back to text extraction'')]\<rparr>))
              else text_fallback env bytes_data s0)"

text \<open>
  The caller of \<open>process_pdf\<close>, on the Upload page: \<open>if resume_text:\<close> it reports the
  resume as processed, \<open>else\<close> it reports that no text could be extracted. The model
  keeps the first message of each branch (the word and character counts that follow the
  first are left out).
\<close>

definition upload_feedback :: "ustring \<Rightarrow> message" where
  "upload_feedback resume_text =
     (if resume_text \<noteq> []
      then Markdown (ascii ''<div class=\"success-box\">'' @ [9989] @
             ascii '' Resume uploaded and processed successfully!</div>'')
      else Error ([10060] @
             ascii '' Could not extract text from the PDF. Please ensure the file contains readable text.''))"

text \<open>
  The words of claims C1 and C4 about a file: the text a page contributes, whether some
  page has text, and when each route fails (a call it makes raises).
\<close>

definition page_text :: "page \<Rightarrow> ustring" where
  "page_text p = (case p of Inr (Some t) \<Rightarrow> t | _ \<Rightarrow> [])"

definition some_page_has_text :: "page list \<Rightarrow> bool" where
  "some_page_has_text pages = list_ex (\<lambda>p. page_text p \<noteq> []) pages"

definition ocr_fails :: "extract_env \<Rightarrow> bytes \<Rightarrow> bool" where
  "ocr_fails env bytes_data =
     (case convert_from_bytes env bytes_data of
        Inl e \<Rightarrow> True
      | Inr images \<Rightarrow> list_ex (\<lambda>img. isl (image_to_string env img)) images)"

definition text_layer_fails :: "extract_env \<Rightarrow> bytes \<Rightarrow> bool" where
  "text_layer_fails env bytes_data =
     (case pdf_pages env bytes_data of
        Inl e \<Rightarrow> True
      | Inr pages \<Rightarrow> list_ex isl pages)"

text \<open>
  Concrete environments: a PDF of two pages that have no text layer, read without the
  OCR tools; the same with one page; and a PDF that neither the rasteriser nor the reader
  can open.
\<close>

definition blank_pages_env :: extract_env where
  "blank_pages_env =
     \<lparr>USE_PDF2IMAGE = False, HAS_POPPLER = False,
      convert_from_bytes = (\<lambda>b. Inl (Exception (ascii ''poppler not installed''))),
      image_to_string = (\<lambda>img. Inl (Exception (ascii ''tesseract not installed''))),
      pdf_pages = (\<lambda>b. Inr [Inr None, Inr None]),
      convert_page = (\<lambda>b n. Inl (Exception (ascii ''poppler not installed'')))\<rparr>"

definition one_blank_page_env :: extract_env where
  "one_blank_page_env = blank_pages_env\<lparr>pdf_pages := (\<lambda>b. Inr [Inr None])\<rparr>"

definition unreadable_env :: extract_env where
  "unreadable_env =
     \<lparr>USE_PDF2IMAGE = True, HAS_POPPLER = True,
      convert_from_bytes = (\<lambda>b. Inl (Exception (ascii ''Unable to get page count''))),
      image_to_string = (\<lambda>img. Inr (ascii ''text'')),
      pdf_pages = (\<lambda>b. Inl (Exception (ascii ''No /Root object''))),
      convert_page = (\<lambda>b n. Inl (Exception (ascii ''Unable to get page count'')))\<rparr>"

definition some_pdf :: uploaded_file where
  "some_pdf = \<lparr>file_type = ascii ''application/pdf'', getvalue = ascii ''%PDF-1.4''\<rparr>"

section \<open>LLM client\<close>

subsection \<open>The response of the endpoint\<close>

text \<open>
  \<open>call_groq_api\<close> returns \<open>response.json()\<close>, any JSON value, as Python values: \<open>None\<close>,
  \<open>bool\<close>, \<open>int\<close>, \<open>float\<close>, \<open>str\<close>, \<open>list\<close> and \<open>dict\<close> (keys are strings; the
  association list is read by \<open>map_of\<close>, a key has one value). A float is kept as what
  the code can observe of it, whether it is zero.
\<close>

datatype json =
    JNull
  | JBool bool
  | JInt int
  | JFloat (nonzero: bool)
  | JStr ustring
  | JArr "json list"
  | JObj "(ustring \<times> json) list"

text \<open>Truth value of a Python value, as \<open>if response\<close> and \<open>if result\<close> test it.\<close>

fun py_truthy :: "json \<Rightarrow> bool" where
  "py_truthy JNull = False"
| "py_truthy (JBool b) = b"
| "py_truthy (JInt i) = (i \<noteq> 0)"
| "py_truthy (JFloat nz) = nz"
| "py_truthy (JStr s) = (s \<noteq> [])"
| "py_truthy (JArr xs) = (xs \<noteq> [])"
| "py_truthy (JObj kvs) = (kvs \<noteq> [])"

fun type_name :: "json \<Rightarrow> ustring" where
  "type_name JNull = ascii ''NoneType''"
| "type_name (JBool b) = ascii ''bool''"
| "type_name (JInt i) = ascii ''int''"
| "type_name (JFloat nz) = ascii ''float''"
| "type_name (JStr s) = ascii ''str''"
| "type_name (JArr xs) = ascii ''list''"
| "type_name (JObj kvs) = ascii ''dict''"

text \<open>
  The operations the code applies to the response, with the exceptions the interpreter
  raises where a value does not support them (the texts are CPython's):
  \<open>key in v\<close>, \<open>v[key]\<close> for a string key, \<open>v[0]\<close>, and \<open>v.strip()\<close>.
\<close>

fun py_in :: "ustring \<Rightarrow> json \<Rightarrow> exn + bool" where
  "py_in key (JObj kvs) = Inr (key \<in> set (map fst kvs))"
| "py_in key (JArr xs) = Inr (JStr key \<in> set xs)"
| "py_in key (JStr s) = Inr (str_contains key s)"
| "py_in key v =
     Inl (TypeError (ascii ''argument of type '' @ [39] @ type_name v @ [39] @ ascii '' is not iterable''))"

fun py_getitem_str :: "json \<Rightarrow> ustring \<Rightarrow> exn + json" where
  "py_getitem_str (JObj kvs) key =
     (case map_of kvs key of
        Some v \<Rightarrow> Inr v
      | None \<Rightarrow> Inl (KeyError ([39] @ key @ [39])))"
| "py_getitem_str (JArr xs) key =
     Inl (TypeError (ascii ''list indices must be integers or slices, not str''))"
| "py_getitem_str (JStr s) key =
     Inl (TypeError (ascii ''string indices must be integers, not '' @ [39] @ ascii ''str'' @ [39]))"
| "py_getitem_str v key =
     Inl (TypeError ([39] @ type_name v @ [39] @ ascii '' object is not subscriptable''))"

fun py_getitem_0 :: "json \<Rightarrow> exn + json" where
  "py_getitem_0 (JArr []) = Inl (IndexError (ascii ''list index out of range''))"
| "py_getitem_0 (JArr (x # xs)) = Inr x"
| "py_getitem_0 (JStr []) = Inl (IndexError (ascii ''string index out of range''))"
| "py_getitem_0 (JStr (c # cs)) = Inr (JStr [c])"
| "py_getitem_0 (JObj kvs) = Inl (KeyError (ascii ''0''))"
| "py_getitem_0 v =
     Inl (TypeError ([39] @ type_name v @ [39] @ ascii '' object is not subscriptable''))"

fun py_strip :: "json \<Rightarrow> exn + ustring" where
  "py_strip (JStr s) = Inr (str_strip s)"
| "py_strip v =
     Inl (AttributeError ([39] @ type_name v @ [39] @ ascii '' object has no attribute '' @
        [39] @ ascii ''strip'' @ [39]))"

text \<open>Sequencing of steps that may raise: the first exception ends the sequence.\<close>

definition bind_exn :: "exn + 'a \<Rightarrow> ('a \<Rightarrow> exn + 'b) \<Rightarrow> exn + 'b" where
  "bind_exn m f = (case m of Inl e \<Rightarrow> Inl e | Inr x \<Rightarrow> f x)"

text \<open>
  The statements of the \<open>try\<close> body after the call, on a returned response: \<open>Inl e\<close> when
  one of them raises, \<open>Inr (Some result)\<close> when \<open>return result.strip()\<close> is reached,
  \<open>Inr None\<close> when the body ends without returning.
\<close>

definition read_response :: "json \<Rightarrow> exn + ustring option" where
  "read_response response =
     (if \<not> py_truthy response then Inr None
      else bind_exn (py_in (ascii ''choices'') response) (\<lambda>has_choices.
        if \<not> has_choices then Inr None
        else
          bind_exn (py_getitem_str response (ascii ''choices'')) (\<lambda>choices.
          bind_exn (py_getitem_0 choices) (\<lambda>choice.
          bind_exn (py_getitem_str choice (ascii ''message'')) (\<lambda>msg.
          bind_exn (py_getitem_str msg (ascii ''content'')) (\<lambda>result.
            if \<not> py_truthy result then Inr None
            else bind_exn (py_strip result) (\<lambda>stripped.
              if length stripped > 10 then Inr (Some stripped) else Inr None)))))))"

subsection \<open>Session and network\<close>

text \<open>
  One call of \<open>call_groq_api\<close>: the arguments of the request, and what the endpoint does
  on the \<open>n\<close>-th call of the session, a parameter of the model: \<open>requests.post\<close> or
  \<open>response.json()\<close> raises, or a JSON value comes back.
\<close>

record groq_request =
  api_key :: ustring
  model :: ustring
  chat_messages :: "(ustring \<times> ustring) list"
  max_tokens :: int

type_synonym backend = "nat \<Rightarrow> groq_request \<Rightarrow> exn + json"

text \<open>
  What \<open>analyze_resume_with_llm\<close> reads and writes outside its arguments: the module-level
  \<open>groq_api_key\<close> (\<open>os.getenv\<close> gives \<open>None\<close> or a string), the entries \<open>api_tested\<close>,
  \<open>api_working\<close> and \<open>_last_groq_error\<close> of \<open>st.session_state\<close> (absent or set), the
  messages shown, and the requests sent to the endpoint so far.
\<close>

record session =
  groq_api_key :: "ustring option"
  api_tested :: "bool option"
  api_working :: "bool option"
  last_groq_error :: "ustring option"
  shown :: "message list"
  sent :: "groq_request list"

definition call_groq_api :: "backend \<Rightarrow> groq_request \<Rightarrow> session \<Rightarrow> (exn + json) \<times> session" where
  "call_groq_api backend request s =
     (backend (length (sent s)) request, s\<lparr>sent := sent s @ [request]\<rparr>)"

definition system_content :: ustring where
  "system_content =
     ascii ''\<newline>'' @
     ascii ''                    You are a professional resume analyzer and career counselor.\<newline>'' @
     ascii ''                    Provide detailed, actionable feedback. Use clear formatting with bullet points.\<newline>'' @
     ascii ''                    For strengths, start bullet points with [STRENGTH].\<newline>'' @
     ascii ''                    For weaknesses, start bullet points with [WEAKNESS].\<newline>'' @
     ascii ''                    Be specific and provide concrete examples.\<newline>'' @
     ascii ''                    ''"

definition analysis_request :: "ustring \<Rightarrow> ustring \<Rightarrow> groq_request" where
  "analysis_request key prompt_text =
     \<lparr>api_key = key,
      model = ascii ''llama-3.1-8b-instant'',
      chat_messages = [(ascii ''system'', system_content), (ascii ''user'', prompt_text)],
      max_tokens = 1000\<rparr>"

definition API_FAILED :: ustring where
  "API_FAILED = ascii ''API_FAILED''"

text \<open>The messages of the last \<open>except\<close> branch, after the one that carries the error.\<close>

definition failure_hints :: "message list" where
  "failure_hints =
     [Info ([128161] @ ascii '' This could be due to:''),
      Info ([8226] @ ascii '' API rate limits - please wait a few minutes and try again''),
      Info ([8226] @ ascii '' Network connectivity issues''),
      Info ([8226] @ ascii '' Invalid API key - check your .env file''),
      Info ([8226] @ ascii '' Model availability issues''),
      Warning ([128260] @ ascii '' Switching to manual analysis guidelines...'')]"

text \<open>
  The loop \<open>for attempt in range(max_retries)\<close>, from \<open>attempt\<close> on. A response that is
  read without a return and without an exception falls through to the next iteration,
  and nothing is recorded for it.
\<close>

function attempts :: "backend \<Rightarrow> ustring \<Rightarrow> ustring \<Rightarrow> int \<Rightarrow> int \<Rightarrow> session \<Rightarrow> ustring \<times> session" where
  "attempts backend key prompt_text max_retries attempt s =
     (if attempt < max_retries then
        (case call_groq_api backend (analysis_request key prompt_text) s of
           (response, s1) \<Rightarrow>
             (case bind_exn response read_response of
                Inr (Some result) \<Rightarrow> (result, s1)
              | Inr None \<Rightarrow> attempts backend key prompt_text max_retries (attempt + 1) s1
              | Inl e \<Rightarrow>
                  (let error_msg = str_exn e;
                       recorded = ascii ''Attempt '' @ str_int (attempt + 1) @ ascii '': '' @ error_msg;
                       s2 = s1\<lparr>last_groq_error := Some recorded\<rparr>
                   in if attempt < max_retries - 1
                      then attempts backend key prompt_text max_retries (attempt + 1)
                             (s2\<lparr>shown := shown s2 @
                                [Info (ascii ''Retrying analysis (attempt '' @ str_int (attempt + 2) @
                                   ascii ''/'' @ str_int max_retries @ ascii '')...'')]\<rparr>)
                      else (API_FAILED,
                            s2\<lparr>shown := shown s2 @
                               [Error ([10060] @ ascii '' Analysis failed: '' @ recorded)] @
                               failure_hints\<rparr>))))
      else (API_FAILED, s))"
  by pat_completeness auto
termination
  by (relation "measure (\<lambda>(backend, key, prompt_text, max_retries, attempt, s). nat (max_retries - attempt))")
    auto

declare attempts.simps [simp del]

text \<open>
  \<open>analyze_resume_with_llm\<close>: the two early returns, then the loop. \<open>not groq_api_key\<close>
  holds for \<open>None\<close> and for the empty string.
\<close>

definition analyze_resume_with_llm :: "backend \<Rightarrow> ustring \<Rightarrow> int \<Rightarrow> session \<Rightarrow> ustring \<times> session" where
  "analyze_resume_with_llm backend prompt_text max_retries s =
     (case groq_api_key s of
        None \<Rightarrow> ([9888] @ ascii '' No Groq API key found. Please check your .env file.'', s)
      | Some key \<Rightarrow>
          if key = [] then ([9888] @ ascii '' No Groq API key found. Please check your .env file.'', s)
          else if (case api_tested s of None \<Rightarrow> False | Some b \<Rightarrow> b) \<and>
                  \<not> (case api_working s of None \<Rightarrow> True | Some b \<Rightarrow> b)
          then (ascii ''API temporarily unavailable. Please refer to manual analysis guidelines below.'',
                s\<lparr>shown := shown s @
                   [Warning ([128260] @ ascii '' API connection issues detected. Showing manual analysis guidelines.'')]\<rparr>)
          else attempts backend key prompt_text max_retries 0 s)"

text \<open>
  The health probe at the start of the script: it runs once per session, and only with a
  credential. Any returned response counts as a working connection.
\<close>

definition startup_probe :: "backend \<Rightarrow> session \<Rightarrow> session" where
  "startup_probe backend s =
     (case groq_api_key s of
        None \<Rightarrow> s
      | Some key \<Rightarrow>
          if key \<noteq> [] \<and> api_tested s = None
          then (case call_groq_api backend
                       \<lparr>api_key = key, model = ascii ''llama-3.1-8b-instant'',
                        chat_messages = [(ascii ''user'', ascii ''Hello'')], max_tokens = 10\<rparr> s of
                  (Inr response, s1) \<Rightarrow>
                    s1\<lparr>api_tested := Some True, api_working := Some True,
                       shown := shown s1 @ [Success ([9989] @ ascii '' API connection successful!'')]\<rparr>
                | (Inl e, s1) \<Rightarrow>
                    s1\<lparr>api_tested := Some True, api_working := Some False,
                       shown := shown s1 @
                         [Warning ([9888] @ ascii '' API connection issue: '' @ str_exn e),
                          Info ([128161] @ ascii '' Please check your API key and try again'')]\<rparr>)
          else s)"

text \<open>
  The spec's words about a response (claims C5, C6 and C9): its completion field
  \<open>choices[0].message.content\<close>, when the response has one that is a string, and the
  success condition, a completion whose trimmed length exceeds 10 characters.
\<close>

definition completion_of :: "json \<Rightarrow> ustring option" where
  "completion_of response =
     (case response of
        JObj kvs \<Rightarrow>
          (case map_of kvs (ascii ''choices'') of
             Some (JArr (JObj choice # _)) \<Rightarrow>
               (case map_of choice (ascii ''message'') of
                  Some (JObj msg) \<Rightarrow>
                    (case map_of msg (ascii ''content'') of
                       Some (JStr t) \<Rightarrow> Some t
                     | _ \<Rightarrow> None)
                | _ \<Rightarrow> None)
           | _ \<Rightarrow> None)
      | _ \<Rightarrow> None)"

definition has_completion :: "json \<Rightarrow> bool" where
  "has_completion response =
     (case completion_of response of
        Some t \<Rightarrow> 10 < length (str_strip t)
      | None \<Rightarrow> False)"

text \<open>An attempt fails when the call raises or the response has no such completion.\<close>

definition attempt_fails :: "exn + json \<Rightarrow> bool" where
  "attempt_fails outcome = (case outcome of Inl e \<Rightarrow> True | Inr response \<Rightarrow> \<not> has_completion response)"

text \<open>The exception of a failed attempt, if it failed by one: the one its \<open>except\<close> clause receives.\<close>

definition attempt_error :: "exn + json \<Rightarrow> exn option" where
  "attempt_error outcome =
     (case bind_exn outcome read_response of Inl e \<Rightarrow> Some e | Inr _ \<Rightarrow> None)"

text \<open>
  What \<open>_last_groq_error\<close> holds after attempts number \<open>i + 1\<close>, \<open>i + 2\<close>, ... with the given
  outcomes: the record of the most recent one that raised, else what it held before.
\<close>

fun last_error_record :: "int \<Rightarrow> (exn + json) list \<Rightarrow> ustring option \<Rightarrow> ustring option" where
  "last_error_record i [] r = r"
| "last_error_record i (outcome # outcomes) r =
     last_error_record (i + 1) outcomes
       (case attempt_error outcome of
          Some e \<Rightarrow> Some (ascii ''Attempt '' @ str_int (i + 1) @ ascii '': '' @ str_exn e)
        | None \<Rightarrow> r)"

text \<open>
  What the \<open>except\<close> clause stores in \<open>_last_groq_error\<close> for the attempt with loop index
  \<open>attempt\<close> (counted from 0) that raised \<open>e\<close>: \<open>f"Attempt {attempt+1}: {error_msg}"\<close>.
\<close>

definition attempt_record :: "int \<Rightarrow> exn \<Rightarrow> ustring" where
  "attempt_record attempt e = ascii ''Attempt '' @ str_int (attempt + 1) @ ascii '': '' @ str_exn e"

text \<open>
  The two preconditions of the spec, as the code tests them: a credential is configured
  (\<open>groq_api_key\<close> is a non-empty string), and the health probe of this session recorded
  the backend as unreachable (\<open>api_tested\<close> is set and \<open>api_working\<close> is \<open>False\<close>).
  \<open>max_retries\<close> defaults to 3.
\<close>

definition credential_configured :: "session \<Rightarrow> bool" where
  "credential_configured s = (case groq_api_key s of None \<Rightarrow> False | Some key \<Rightarrow> key \<noteq> [])"

definition known_unreachable :: "session \<Rightarrow> bool" where
  "known_unreachable s \<longleftrightarrow> api_tested s = Some True \<and> api_working s = Some False"

definition default_max_retries :: int where
  "default_max_retries = 3"

text \<open>
  Concrete sessions and endpoints: a session with a key and a successful probe; an
  endpoint that cannot be reached; and one that answers every request with a given
  completion.
\<close>

definition ready_session :: session where
  "ready_session =
     \<lparr>groq_api_key = Some (ascii ''gsk_test''), api_tested = Some True, api_working = Some True,
      last_groq_error = None, shown = [], sent = []\<rparr>"

definition down_backend :: backend where
  "down_backend n request = Inl (Exception (ascii ''Connection refused''))"

definition completion_response :: "ustring \<Rightarrow> json" where
  "completion_response content =
     JObj [(ascii ''choices'',
            JArr [JObj [(ascii ''message'', JObj [(ascii ''content'', JStr content)])]])]"

definition answering_backend :: "ustring \<Rightarrow> backend" where
  "answering_backend content n request = Inr (completion_response content)"

text \<open>An endpoint that times out on the first request of the session and answers the next ones.\<close>

definition flaky_backend :: backend where
  "flaky_backend n request =
     (if n = 0 then Inl (Exception (ascii ''Read timed out''))
      else Inr (completion_response (ascii ''OK, detailed analysis...'')))"

section \<open>Report document\<close>

text \<open>
  \<open>generate_enhanced_pdf_report\<close> builds a list of layout elements and hands it to the
  document template. The library is a parameter of the model:
  \<^item> \<open>make_paragraph\<close>: the constructor \<open>Paragraph(text, style)\<close>, which reads the markup
    of its text and may raise;
  \<^item> \<open>doc_build\<close>: \<open>doc.build(elements)\<close> followed by \<open>buffer.getvalue()\<close>;
  \<^item> \<open>unicode_digit\<close>: \<open>str.isdigit\<close> on a character outside ASCII (the Unicode
    database); on ASCII it holds for \<open>0\<close> to \<open>9\<close>.
\<close>

datatype style = title_style | heading_style | body_style | bullet_style

datatype flowable = Paragraph ustring style | Spacer nat nat

record report_env =
  unicode_digit :: "nat \<Rightarrow> bool"
  make_paragraph :: "ustring \<Rightarrow> style \<Rightarrow> exn + flowable"
  doc_build :: "flowable list \<Rightarrow> exn + bytes"

definition py_isdigit :: "report_env \<Rightarrow> nat \<Rightarrow> bool" where
  "py_isdigit env c \<longleftrightarrow> (48 \<le> c \<and> c \<le> 57) \<or> (128 \<le> c \<and> unicode_digit env c)"

text \<open>
  The condition
  \<open>clean_line.startswith(bullet) or (len(clean_line) > 0 and clean_line[0].isdigit() and
  clean_line[1] == '.')\<close>, evaluated from the left: \<open>clean_line[1]\<close> is read once the
  first character is a digit, and raises IndexError when there is no second character.
\<close>

definition bullet_condition :: "report_env \<Rightarrow> ustring \<Rightarrow> exn + bool" where
  "bullet_condition env clean_line =
     (if str_startswith clean_line [bullet] then Inr True
      else if length clean_line > 0 \<and> py_isdigit env (hd clean_line)
      then (case tl clean_line of
              [] \<Rightarrow> Inl (IndexError (ascii ''string index out of range''))
            | c # _ \<Rightarrow> Inr (c = 46))
      else Inr False)"

text \<open>The loop \<open>for line in lines\<close> of one section, appending to \<open>elements\<close>.\<close>

fun report_lines :: "report_env \<Rightarrow> ustring list \<Rightarrow> flowable list \<Rightarrow> exn + flowable list" where
  "report_lines env [] elements = Inr elements"
| "report_lines env (line0 # lines) elements =
     (let line = str_strip line0 in
      if line \<noteq> [] then
        (let clean_line =
               str_strip (str_replace [] []
                 (str_replace (ascii ''[WEAKNESS]'') []
                   (str_replace (ascii ''[STRENGTH]'') [] line)))
         in bind_exn (bullet_condition env clean_line) (\<lambda>is_bullet.
            bind_exn (make_paragraph env clean_line (if is_bullet then bullet_style else body_style))
              (\<lambda>p. report_lines env lines (elements @ [p]))))
      else report_lines env lines elements)"

text \<open>The loop \<open>for section, content in report_data.items()\<close>.\<close>

fun report_sections :: "report_env \<Rightarrow> (ustring \<times> ustring) list \<Rightarrow> flowable list \<Rightarrow> exn + flowable list" where
  "report_sections env [] elements = Inr elements"
| "report_sections env ((section, content) # rest) elements =
     (if content \<noteq> [] \<and> str_strip content \<noteq> [] then
        bind_exn (make_paragraph env ([128203] @ ascii '' '' @ section) heading_style) (\<lambda>heading.
        bind_exn (report_lines env (str_split [nl] content) (elements @ [heading])) (\<lambda>elements1.
          report_sections env rest (elements1 @ [Spacer 1 15])))
      else report_sections env rest elements)"

text \<open>
  \<open>generate_enhanced_pdf_report\<close>: the elements are prepared before the \<open>try\<close>, only
  \<open>doc.build\<close> is inside it. The result is what the caller receives (\<open>Inl\<close> for an
  exception that leaves the function) and the messages shown.
\<close>

definition generate_enhanced_pdf_report :: "report_env \<Rightarrow> (ustring \<times> ustring) list \<Rightarrow> (exn + bytes) \<times> message list" where
  "generate_enhanced_pdf_report env report_data =
     (case bind_exn (make_paragraph env ([128196] @ ascii '' Resume Analysis Report'') title_style)
             (\<lambda>title. report_sections env report_data [title, Spacer 1 20]) of
        Inl e \<Rightarrow> (Inl e, [])
      | Inr elements \<Rightarrow>
          (case doc_build env elements of
             Inr pdf_bytes \<Rightarrow> (Inr pdf_bytes, [])
           | Inl e \<Rightarrow> (Inr [], [Error (ascii ''Error generating PDF report: '' @ str_exn e)])))"

text \<open>
  A sample library for the evaluation below, not the real one: it accepts every paragraph
  and builds every document, and it knows no digit outside ASCII (Python's table has
  some, and the real constructor rejects some markup).
\<close>

definition plain_report_env :: report_env where
  "plain_report_env =
     \<lparr>unicode_digit = (\<lambda>c. False),
      make_paragraph = (\<lambda>text st. Inr (Paragraph text st)),
      doc_build = (\<lambda>elements. Inr (ascii ''%PDF-1.4''))\<rparr>"

section \<open>Results page\<close>

text \<open>\<open>provide_manual_analysis_tips\<close>: a dict literal with four entries.\<close>

definition provide_manual_analysis_tips :: "(ustring \<times> ustring) list" where
  "provide_manual_analysis_tips =
    [(ascii ''Quick Overview'',
      ascii ''\<newline>'' @
      ascii ''        Your resume has been uploaded and processed successfully.\<newline>'' @
      ascii ''        Here are some general guidelines to review:\<newline>'' @
      ascii ''        - Your contact information is prominent and current.\<newline>'' @
      ascii ''        - Your experience is listed in reverse chronological order.\<newline>'' @
      ascii ''        - Your skills section matches the job requirements.\<newline>'' @
      ascii ''        - Look for quantifiable achievements and results.\<newline>'' @
      ascii ''        ''),
     (ascii ''Issues Analysis'',
      ascii ''\<newline>'' @
      ascii ''        Common resume issues to check manually:\<newline>'' @
      ascii ''        - Formatting problems: Inconsistent fonts, sizes, or spacing.\<newline>'' @
      ascii ''        - Content issues: Typos, vague job descriptions, missing achievements.\<newline>'' @
      ascii ''        - Structure problems: No clear summary, poor organization.\<newline>'' @
      ascii ''        ''),
     (ascii ''Enhancement Tips'',
      ascii ''\<newline>'' @
      ascii ''        Focus on these improvement areas:\<newline>'' @
      ascii ''        - Add quantifiable achievements.\<newline>'' @
      ascii ''        - Use action verbs to start bullet points.\<newline>'' @
      ascii ''        - Customize your resume for each job application.\<newline>'' @
      ascii ''        - Include relevant keywords from the job posting.\<newline>'' @
      ascii ''        ''),
     (ascii ''Job Matching'',
      ascii ''\<newline>'' @
      ascii ''        To manually assess job matching:\<newline>'' @
      ascii ''        - Compare your resume against the job posting.\<newline>'' @
      ascii ''        - Highlight matching skills and experience.\<newline>'' @
      ascii ''        - Identify gaps: Missing technical skills, lack of industry experience.\<newline>'' @
      ascii ''        '')]"

text \<open>
  What the Results page reads from \<open>st.session_state\<close>, and what it produces for an
  analysis: the panels shown (a title and the markup of the \<open>analysis-result\<close> block) and
  the \<open>report_data\<close> dict it hands to \<open>generate_enhanced_pdf_report\<close> for the download.
  The navigation buttons and the download button itself are not part of the model.
\<close>

record page_state =
  resume_text :: ustring
  job_description :: ustring
  selected_analysis :: ustring

record results_view =
  panels :: "(ustring \<times> ustring) list"
  report_data :: "(ustring \<times> ustring) list"

text \<open>
  The loop of the Complete Analysis branch over \<open>analysis_steps\<close>: each result is stored
  and shown as \<open>analyze_resume_with_llm\<close> returned it.
\<close>

fun complete_steps :: "backend \<Rightarrow> page_state \<Rightarrow> (ustring \<times> ustring) list \<Rightarrow> results_view \<Rightarrow> session \<Rightarrow> results_view \<times> session" where
  "complete_steps backend page [] view s = (view, s)"
| "complete_steps backend page ((step_name, step_key) # steps) view s =
     (case step_full_prompt step_key (resume_text page) (job_description page) of
        None \<Rightarrow> complete_steps backend page steps view s
      | Some full_prompt_text \<Rightarrow>
          (case analyze_resume_with_llm backend full_prompt_text default_max_retries s of
             (result, s1) \<Rightarrow>
               complete_steps backend page steps
                 (view\<lparr>report_data := AList.update step_name result (report_data view),
                       panels := panels view @ [(step_name, format_analysis_result result)]\<rparr>)
                 s1))"

text \<open>
  The branch for any other analysis type. \<open>manual_tips.get(analysis_type,
  manual_tips["Quick Overview"])\<close> replaces the result \<open>"API_FAILED"\<close>.
\<close>

definition single_analysis :: "backend \<Rightarrow> page_state \<Rightarrow> ustring \<Rightarrow> session \<Rightarrow> results_view \<times> session" where
  "single_analysis backend page analysis_type s =
     (case map_of analysis_options analysis_type of
        None \<Rightarrow> (\<lparr>panels = [], report_data = []\<rparr>, s)
      | Some prompt_data \<Rightarrow>
          (case analyze_resume_with_llm backend
                  (full_prompt (prompt prompt_data) (resume_text page) (job_description page))
                  default_max_retries s of
             (result0, s1) \<Rightarrow>
               (let (result, s2) =
                      (if result0 = API_FAILED
                       then ((case map_of provide_manual_analysis_tips analysis_type of
                                Some tips \<Rightarrow> tips
                              | None \<Rightarrow> the (map_of provide_manual_analysis_tips (ascii ''Quick Overview''))),
                             s1\<lparr>shown := shown s1 @
                                [Warning ([128260] @ ascii '' API temporarily unavailable. Showing manual analysis guidelines:'')]\<rparr>)
                       else (result0, s1))
                in (\<lparr>panels = [(analysis_type, format_analysis_result result)],
                     report_data = [(analysis_type, result)]\<rparr>, s2))))"

definition results_page :: "backend \<Rightarrow> page_state \<Rightarrow> session \<Rightarrow> results_view \<times> session" where
  "results_page backend page s =
     (if resume_text page = []
      then (\<lparr>panels = [], report_data = []\<rparr>,
            s\<lparr>shown := shown s @
               [Warning ([9888] @ ascii '' No resume data found. Please upload a resume first.'')]\<rparr>)
      else if job_description page = []
      then (\<lparr>panels = [], report_data = []\<rparr>,
            s\<lparr>shown := shown s @
               [Warning ([9888] @ ascii '' No job description found. Please provide a job description.'')]\<rparr>)
      else if selected_analysis page \<noteq> []
      then (if selected_analysis page = ascii ''Complete Analysis''
            then complete_steps backend page analysis_steps \<lparr>panels = [], report_data = []\<rparr> s
            else single_analysis backend page (selected_analysis page) s)
      else (\<lparr>panels = [], report_data = []\<rparr>,
            s\<lparr>shown := shown s @
               [Info ([128070] @ ascii '' No analysis type selected. Please go back and choose an analysis type.'')]\<rparr>))"

text \<open>A page with a resume and a job description, for a selected analysis type.\<close>

definition sample_page :: "ustring \<Rightarrow> page_state" where
  "sample_page analysis_type =
     \<lparr>resume_text = ascii ''Jane Doe, data analyst, SQL and Python'',
      job_description = ascii ''Data Analyst with SQL'',
      selected_analysis = analysis_type\<rparr>"

section \<open>Properties of the string operations\<close>

subsection \<open>Substrings\<close>

lemma str_contains_sublist: "str_contains sub s \<longleftrightarrow> sublist sub s"
  by (induction s) (auto simp: sublist_Cons_right)

lemma str_contains_single: "str_contains [c] s \<longleftrightarrow> c \<in> set s"
  by (induction s) auto

lemma sublist_set_mono: "sublist xs ys \<Longrightarrow> set xs \<subseteq> set ys"
  by (auto simp: sublist_def)

lemma sublist_avoiding_char:
  assumes "sublist m (xs @ d # ys)" and "d \<notin> set m"
  shows "sublist m xs \<or> sublist m ys"
proof -
  obtain ps ss where eq: "xs @ d # ys = ps @ m @ ss"
    using assms(1) by (auto simp: sublist_def)
  show ?thesis
  proof (cases "length ps + length m \<le> length xs")
    case True
    have "take (length xs) (xs @ d # ys) = take (length xs) (ps @ m @ ss)"
      by (simp only: eq)
    then have "xs = ps @ m @ take (length xs - length ps - length m) ss"
      using True by simp
    then show ?thesis unfolding sublist_def by blast
  next
    case False
    show ?thesis
    proof (cases "length xs < length ps")
      case True
      have "drop (Suc (length xs)) (xs @ d # ys) = drop (Suc (length xs)) (ps @ m @ ss)"
        by (simp only: eq)
      then have "ys = drop (Suc (length xs)) ps @ m @ ss"
        using True by simp
      then show ?thesis unfolding sublist_def by blast
    next
      case inside: False
      have "(xs @ d # ys) ! length xs = (ps @ m @ ss) ! length xs"
        by (simp only: eq)
      moreover have lt: "length xs - length ps < length m"
        using False inside by simp
      ultimately have "d = m ! (length xs - length ps)"
        using inside by (simp add: nth_append)
      with lt have "d \<in> set m" by simp
      then show ?thesis using assms(2) by simp
    qed
  qed
qed

lemma sublist_avoiding_chars:
  assumes "ds \<noteq> []" and "sublist m (xs @ ds @ ys)" and "set ds \<inter> set m = {}"
    and "m \<noteq> []"
  shows "sublist m xs \<or> sublist m ys"
  using assms
proof (induction ds arbitrary: xs rule: list_nonempty_induct)
  case (single d)
  then show ?case using sublist_avoiding_char[of m xs d ys] by simp
next
  case (cons d ds)
  from cons.prems(1) have "sublist m (xs @ d # (ds @ ys))" by simp
  moreover have "d \<notin> set m" using cons.prems(2) by auto
  ultimately have "sublist m xs \<or> sublist m (ds @ ys)"
    by (rule sublist_avoiding_char)
  then show ?case
  proof
    assume "sublist m xs" then show ?thesis by simp
  next
    assume "sublist m (ds @ ys)"
    then have "sublist m ([] @ ds @ ys)" by simp
    then have "sublist m [] \<or> sublist m ys"
      using cons.IH[of "[]"] cons.prems by auto
    then show ?thesis using cons.prems(3) by auto
  qed
qed

subsection \<open>replace\<close>

lemma str_replace_empty [simp]: "str_replace [] [] s = s"
  by (induction s) (auto simp: str_replace_def)

lemma str_replace_from_absent:
  "\<not> str_contains old s \<Longrightarrow> str_replace_from old new s = s"
  by (induction s) auto

lemma str_replace_absent:
  "\<not> str_contains old s \<Longrightarrow> str_replace old new s = s"
  by (cases "old = []") (auto simp: str_replace_def str_replace_from_absent str_contains_sublist)

lemma set_str_replace_from: "set (str_replace_from old [] s) \<subseteq> set s"
proof (induction old "[]::nat list" s rule: str_replace_from.induct)
  case (1 old)
  then show ?case by simp
next
  case (2 old c cs)
  then show ?case using set_drop_subset[of "length old" "c # cs"] by (auto split: if_splits)
qed

lemma set_str_replace: "set (str_replace old [] s) \<subseteq> set s"
  by (cases "old = []") (use set_str_replace_from in \<open>auto simp: str_replace_def\<close>)

lemma str_replace_removes_char: "c \<notin> set (str_replace [c] [] s)"
proof -
  have "c \<notin> set (str_replace_from [c] [] s)"
    by (induction s) auto
  then show ?thesis by (simp add: str_replace_def)
qed

subsection \<open>split\<close>

lemma str_split_nonempty [simp]: "str_split sep s \<noteq> []"
  by (induction sep s rule: str_split.induct) (auto split: list.splits)

lemma str_split_absent: "\<not> str_contains sep s \<Longrightarrow> str_split sep s = [s]"
  by (induction s) auto

lemma hd_str_split_prefix: "prefix (hd (str_split sep s)) s"
  by (induction sep s rule: str_split.induct) (auto split: list.splits)

lemma str_split_pieces_free:
  assumes "sep \<noteq> []" and "p \<in> set (str_split sep s)"
  shows "\<not> sublist sep p"
  using assms
proof (induction sep s arbitrary: p rule: str_split.induct)
  case (1 sep)
  then show ?case by simp
next
  case (2 sep c cs)
  show ?case
  proof (cases "prefix sep (c # cs)")
    case True
    then show ?thesis using 2 by auto
  next
    case False
    obtain q qs where q: "str_split sep cs = q # qs"
      by (cases "str_split sep cs") auto
    have "prefix q cs" using hd_str_split_prefix[of sep cs] q by simp
    then have np: "\<not> prefix sep (c # q)"
      using False by (meson Cons_prefix_Cons prefix_order.trans)
    have "\<not> sublist sep q" using 2(2)[OF _ "2.prems"(1)] False q by auto
    then have "\<not> sublist sep (c # q)" using np by (simp add: sublist_Cons_right)
    moreover have "\<forall>p \<in> set qs. \<not> sublist sep p"
      using 2(2)[OF _ "2.prems"(1)] False q by auto
    ultimately show ?thesis using "2.prems"(2) False q by auto
  qed
qed

lemma str_split_pieces_set:
  "p \<in> set (str_split sep s) \<Longrightarrow> set p \<subseteq> set s"
proof (induction sep s arbitrary: p rule: str_split.induct)
  case (1 sep)
  then show ?case by simp
next
  case (2 sep c cs)
  then show ?case 
    using set_drop_subset[of "length sep" "c # cs"]
    by (fastforce split: if_splits list.splits)
qed

lemma hd_str_split_char: "hd (str_split [c] s) = takeWhile (\<lambda>x. x \<noteq> c) s"
  by (induction s) (auto split: list.splits)

subsection \<open>strip\<close>

lemma str_strip_decomp: "\<exists>a b. s = a @ str_strip s @ b"
proof -
  let ?t = "dropWhile isspace s"
  have "s = takeWhile isspace s @ ?t" by simp
  moreover have "rev (dropWhile isspace (rev ?t)) @ rev (takeWhile isspace (rev ?t)) =
      rev (takeWhile isspace (rev ?t) @ dropWhile isspace (rev ?t))"
    by (simp only: rev_append)
  then have "?t = str_strip s @ rev (takeWhile isspace (rev ?t))"
    by (simp add: str_strip_def)
  ultimately show ?thesis by metis
qed

lemma str_strip_sublist: "sublist (str_strip s) s"
  using str_strip_decomp[of s] unfolding sublist_def by blast

lemma set_str_strip: "set (str_strip s) \<subseteq> set s"
  using str_strip_sublist sublist_set_mono by blast

lemma str_strip_ends:
  assumes "str_strip s \<noteq> []"
  shows "\<not> isspace (hd (str_strip s))" and "\<not> isspace (last (str_strip s))"
proof -
  let ?t = "dropWhile isspace s"
  let ?u = "dropWhile isspace (rev ?t)"
  have u: "?u \<noteq> []" using assms by (simp add: str_strip_def)
  then have t: "?t \<noteq> []" by (metis dropWhile.simps(1) rev_is_Nil_conv)
  have "hd (str_strip s) = last ?u" using u by (simp add: str_strip_def hd_rev)
  also have "\<dots> = last (rev ?t)" using u by (metis last_appendR takeWhile_dropWhile_id)
  also have "\<dots> = hd ?t" using t by (simp add: last_rev)
  finally show "\<not> isspace (hd (str_strip s))" using t hd_dropWhile by metis
  have "last (str_strip s) = hd ?u" using u by (simp add: str_strip_def last_rev)
  then show "\<not> isspace (last (str_strip s))" using u hd_dropWhile by metis
qed

lemma str_strip_fixed:
  assumes "s \<noteq> []" and "\<not> isspace (hd s)" and "\<not> isspace (last s)"
  shows "str_strip s = s"
proof -
  have "dropWhile isspace s = s" using assms(1,2) by (cases s) auto
  moreover have "dropWhile isspace (rev s) = rev s"
    using assms(1,3) by (cases "rev s") (auto simp: last_rev[symmetric] hd_rev)
  ultimately show ?thesis by (simp add: str_strip_def)
qed

lemma str_strip_append:
  assumes "a \<noteq> []" and "\<not> isspace (hd a)" and "t \<noteq> []" and "\<not> isspace (hd t)"
  shows "str_strip (a @ t) = a @ str_strip t" and "str_strip t \<noteq> []"
proof -
  have t: "dropWhile isspace t = t" using assms(3,4) by (cases t) auto
  have a: "dropWhile isspace (a @ t) = a @ t" using assms(1,2) by (cases a) auto
  have "hd t \<in> set (rev t)" using assms(3) by simp
  then have ex: "\<exists>x \<in> set (rev t). \<not> isspace x" using assms(4) by blast
  then obtain x where "x \<in> set (rev t)" and "\<not> isspace x" by blast
  then have "dropWhile isspace (rev t @ rev a) = dropWhile isspace (rev t) @ rev a"
    by (rule dropWhile_append1)
  then show "str_strip (a @ t) = a @ str_strip t"
    by (simp add: str_strip_def a t)
  have "dropWhile isspace (rev t) \<noteq> []" using ex by (simp add: dropWhile_eq_Nil_conv)
  then show "str_strip t \<noteq> []" by (simp add: str_strip_def t)
qed

subsection \<open>join\<close>

lemma set_str_join: "set (str_join sep L) \<subseteq> set sep \<union> \<Union> (set ` set L)"
  by (induction sep L rule: str_join.induct) auto

lemma str_join_ends:
  assumes "L \<noteq> []" and "\<forall>e \<in> set L. e \<noteq> []"
  shows "str_join sep L \<noteq> []" and "hd (str_join sep L) = hd (hd L)"
    and "last (str_join sep L) = last (last L)"
  using assms by (induction sep L rule: str_join.induct) auto

lemma sublist_str_join:
  assumes "sublist m (str_join sep L)" and "set sep \<inter> set m = {}" and "m \<noteq> []"
    and "sep \<noteq> []"
  shows "\<exists>e \<in> set L. sublist m e"
  using assms
proof (induction sep L rule: str_join.induct)
  case (1 sep)
  then show ?case by simp
next
  case (2 sep x)
  then show ?case by simp
next
  case (3 sep x y ys)
  have "sublist m x \<or> sublist m (str_join sep (y # ys))"
    using sublist_avoiding_chars[of sep m x "str_join sep (y # ys)"] 3 by simp
  then show ?case using 3 by auto
qed

lemma str_join_empty_iff:
  "sep \<noteq> [] \<Longrightarrow> str_join sep L = [] \<longleftrightarrow> L = [] \<or> L = [[]]"
  by (induction sep L rule: str_join.induct) auto

section \<open>Properties of prompt construction\<close>

lemma step_options_overview: "step_options (ascii ''overview'') = [ascii ''Quick Overview'']" 
  by (simp add: step_options_def analysis_options_def str_lower_def str_replace_def ascii_def)
lemma step_options_issues: "step_options (ascii ''issues'') = [ascii ''Issues Analysis'']" 
  by (simp add: step_options_def analysis_options_def str_lower_def str_replace_def ascii_def)
lemma step_options_tips: "step_options (ascii ''tips'') = [ascii ''Enhancement Tips'']" 
  by (simp add: step_options_def analysis_options_def str_lower_def str_replace_def ascii_def)
lemma step_options_matching: "step_options (ascii ''matching'') = [ascii ''Job Matching'']" 
  by (simp add: step_options_def analysis_options_def str_lower_def str_replace_def ascii_def)

lemma full_prompt_frame: "\<exists>pre post. \<forall>r. full_prompt t r jd = pre @ take 4000 r @ post"
  unfolding full_prompt_def by (metis append.assoc)

lemma full_prompt_step_frame: "\<exists>pre post. \<forall>r. full_prompt_step t r jd = pre @ take 4000 r @ post"
  unfolding full_prompt_step_def by (metis append.assoc)

lemma analysis_options_keys:
  "map fst analysis_options =
     [ascii ''Quick Overview'', ascii ''Issues Analysis'', ascii ''Enhancement Tips'',
      ascii ''Job Matching'', ascii ''Complete Analysis'']"
  by (simp add: analysis_options_def)

lemma analysis_options_lookup:
  assumes "k \<in> set (map fst analysis_options)"
  shows "\<exists>d. map_of analysis_options k = Some d"
  using assms by (metis map_of_eq_None_iff not_Some_eq set_map)

lemma step_options_steps:
  assumes "(step_name, step_key) \<in> set analysis_steps"
  shows "\<exists>k. step_options step_key = [k] \<and> k \<in> set (map fst analysis_options)"
proof -
  have "step_key = ascii ''overview'' \<or> step_key = ascii ''issues'' \<or>
        step_key = ascii ''tips'' \<or> step_key = ascii ''matching''"
    using assms by (auto simp: analysis_steps_def)
  then show ?thesis
    unfolding analysis_options_keys
    by (elim disjE) (simp_all add: step_options_overview step_options_issues
        step_options_tips step_options_matching)
qed

lemma step_full_prompt_frame:
  assumes "(step_name, step_key) \<in> set analysis_steps"
  shows "\<exists>pre post. \<forall>r. step_full_prompt step_key r jd = Some (pre @ take 4000 r @ post)"
proof -
  obtain k where k: "step_options step_key = [k]" and "k \<in> set (map fst analysis_options)"
    using step_options_steps[OF assms] by blast
  then obtain d where d: "map_of analysis_options k = Some d"
    using analysis_options_lookup by blast
  obtain pre post where "\<forall>r. full_prompt_step (prompt d) r jd = pre @ take 4000 r @ post"
    using full_prompt_step_frame by blast
  then show ?thesis
    by (auto simp: step_full_prompt_def k d)
qed

lemma results_prompts_single:
  assumes "k \<in> set (map fst analysis_options)" "k \<noteq> ascii ''Complete Analysis''"
  shows "\<exists>pre post. \<forall>r. results_prompts k r jd = [pre @ take 4000 r @ post]"
proof -
  obtain d where d: "map_of analysis_options k = Some d"
    using analysis_options_lookup[OF assms(1)] by blast
  obtain pre post where "\<forall>r. full_prompt (prompt d) r jd = pre @ take 4000 r @ post"
    using full_prompt_frame by blast
  then show ?thesis using assms(2) by (auto simp: results_prompts_def d)
qed

lemma results_prompts_complete:
  "\<exists>frames. length frames = 4 \<and> (\<forall>r. results_prompts (ascii ''Complete Analysis'') r jd =
      map (\<lambda>(pre, post). pre @ take 4000 r @ post) frames)"
proof -
  have "\<forall>x \<in> set analysis_steps. \<exists>fr. \<forall>r. step_full_prompt (snd x) r jd = Some (fst fr @ take 4000 r @ snd fr)"
    using step_full_prompt_frame by (metis prod.collapse fst_conv snd_conv)
  then obtain f where f: "\<forall>x \<in> set analysis_steps. \<forall>r. step_full_prompt (snd x) r jd = Some (fst (f x) @ take 4000 r @ snd (f x))"
    by metis
  have "\<forall>r. results_prompts (ascii ''Complete Analysis'') r jd =
      map (\<lambda>(pre, post). pre @ take 4000 r @ post) (map f analysis_steps)"
    using f by (simp add: results_prompts_def analysis_steps_def case_prod_unfold)
  moreover have "length (map f analysis_steps) = 4" by (simp add: analysis_steps_def)
  ultimately show ?thesis by blast
qed

text \<open>
  Claim C8. For a resume text longer than 4000 characters and every analysis type of
  \<open>analysis_options\<close>, each prompt the Results page builds is a fixed frame around
  \<open>resume_text[:4000]\<close>: the frame (the text before and after) does not depend on the
  resume text, the slice has exactly 4000 characters, and so nothing of the resume text
  beyond position 4000 reaches the prompt.
\<close>

theorem prompt_truncation:
  assumes "4000 < length resume"
    and "analysis_type \<in> set (map fst analysis_options)"
  shows "length (take 4000 resume) = 4000 \<and>
     (\<exists>frames. frames \<noteq> [] \<and>
        (\<forall>r. results_prompts analysis_type r jd =
           map (\<lambda>(pre, post). pre @ take 4000 r @ post) frames))"
proof
  show "length (take 4000 resume) = 4000" using assms(1) by simp
next
  show "\<exists>frames. frames \<noteq> [] \<and>
        (\<forall>r. results_prompts analysis_type r jd =
           map (\<lambda>(pre, post). pre @ take 4000 r @ post) frames)"
  proof (cases "analysis_type = ascii ''Complete Analysis''")
    case True
    obtain frames where "length frames = 4" and
      "\<forall>r. results_prompts (ascii ''Complete Analysis'') r jd =
      map (\<lambda>(pre, post). pre @ take 4000 r @ post) frames"
      using results_prompts_complete by blast
    then show ?thesis using True by (intro exI[of _ frames]) auto
  next
    case False
    obtain pre post where "\<forall>r. results_prompts analysis_type r jd = [pre @ take 4000 r @ post]"
      using results_prompts_single[OF assms(2) False] by blast
    then show ?thesis by (intro exI[of _ "[(pre, post)]"]) simp
  qed
qed

theorem prompt_truncation_witness:
  "4000 < length (replicate 4001 (97::nat)) \<and> ascii ''Job Matching'' \<in> set (map fst analysis_options) \<and>
   length (take 4000 (replicate 4001 (97::nat))) = 4000 \<and>
     (\<exists>frames. frames \<noteq> [] \<and>
        (\<forall>r. results_prompts (ascii ''Job Matching'') r (ascii ''SQL'') =
           map (\<lambda>(pre, post). pre @ take 4000 r @ post) frames))"
proof -
  have a: "4000 < length (replicate 4001 (97::nat))" by simp
  have b: "ascii ''Job Matching'' \<in> set (map fst analysis_options)"
    by (simp add: analysis_options_keys)
  show ?thesis using a b prompt_truncation[OF a b, of "ascii ''SQL''"] by blast
qed
section \<open>Properties of the result formatter\<close>

subsection \<open>Sections and lines\<close>

lemma isspace_nl [simp]: "isspace nl"
  by (simp add: isspace_def nl_def)

lemma endswith_append:
  assumes "u \<noteq> []"
  shows "str_endswith (a @ u) [c] \<longleftrightarrow> str_endswith u [c]"
  using assms by (auto simp: str_endswith_def suffix_def append_eq_append_conv2 Cons_eq_append_conv append_eq_Cons_conv)

lemma stripped_line_settled:
  assumes "nl \<notin> set p" and "str_strip p \<noteq> []"
  shows "settled (str_strip p)"
proof -
  have nl: "nl \<notin> set (str_strip p)" using assms(1) set_str_strip by blast
  then have "\<not> sublist [nl, nl, nl, nl] (str_strip p)"
    using sublist_set_mono by fastforce
  then show ?thesis
    using assms(2) nl str_strip_ends[OF assms(2)] by (simp add: settled_def)
qed

lemma format_section_settled:
  assumes "\<not> sublist [nl, nl, nl, nl] sec" and "e \<in> set (format_section sec)"
  shows "settled e"
proof -
  let ?section = "str_strip sec"
  let ?lines = "str_split [nl] ?section"
  let ?heading = "str_strip (hd ?lines)"
  have ne: "?section \<noteq> []"
    using assms(2) by (auto simp: format_section_def Let_def split: if_splits)
  have line_free: "nl \<notin> set p" if "p \<in> set ?lines" for p
    using str_split_pieces_free[of "[nl]" p ?section] that
    by (simp add: str_contains_sublist[symmetric] str_contains_single)
  show ?thesis
  proof (cases "str_endswith ?heading (ascii '':'')")
    case True
    then have hne: "?heading \<noteq> []"
      by (auto simp: str_endswith_def ascii_def)
    have "e = ?heading \<or> e \<in> set (filter (\<lambda>line. line \<noteq> []) (map str_strip (tl ?lines)))"
      using assms(2) ne True by (auto simp: format_section_def Let_def split: if_splits)
    then obtain p where "p \<in> set ?lines" and "e = str_strip p" and "e \<noteq> []"
    proof
      assume "e = ?heading"
      moreover have "hd ?lines \<in> set ?lines" by simp
      ultimately show ?thesis using that hne by blast
    next
      assume "e \<in> set (filter (\<lambda>line. line \<noteq> []) (map str_strip (tl ?lines)))"
      then obtain p where "p \<in> set (tl ?lines)" "e = str_strip p" "e \<noteq> []" by auto
      moreover have "set (tl ?lines) \<subseteq> set ?lines" by (simp add: list.set_sel(2) subsetI)
      ultimately show ?thesis using that by blast
    qed
    then show ?thesis using stripped_line_settled line_free by blast
  next
    case False
    then have e: "e = ?section"
      using assms(2) ne by (auto simp: format_section_def Let_def split: if_splits)
    have "\<not> sublist [nl, nl, nl, nl] ?section"
      using assms(1) str_strip_sublist[of sec] sublist_order.order.trans by blast
    moreover have "\<not> str_endswith (str_strip (takeWhile (\<lambda>x. x \<noteq> nl) ?section)) (ascii '':'')"
      using False by (simp add: hd_str_split_char)
    ultimately show ?thesis
      using ne str_strip_ends[OF ne] by (simp add: settled_def e)
  qed
qed

lemma format_section_set:
  assumes "e \<in> set (format_section sec)"
  shows "set e \<subseteq> set sec"
proof -
  have sub: "set (str_strip p) \<subseteq> set sec" if "p \<in> set (str_split [nl] (str_strip sec))" for p
    using str_split_pieces_set[OF that] set_str_strip[of p] set_str_strip[of sec] by blast
  have hd_in: "hd (str_split [nl] (str_strip sec)) \<in> set (str_split [nl] (str_strip sec))"
    by simp
  have tl_in: "p \<in> set (str_split [nl] (str_strip sec))"
    if "p \<in> set (tl (str_split [nl] (str_strip sec)))" for p
    using that by (meson list.set_sel(2) str_split_nonempty)
  show ?thesis
    using assms sub[OF hd_in] sub[OF tl_in] set_str_strip[of sec]
    by (auto simp: format_section_def Let_def split: if_splits)
qed

lemma str_join_settled:
  assumes "L \<noteq> []" and "\<forall>e \<in> set L. settled e"
  shows "settled (str_join (ascii ''<br>'') L)"
  using assms
proof (induction "ascii ''<br>''" L rule: str_join.induct)
  case 1
  then show ?case by simp
next
  case (2 x)
  then show ?case by simp
next
  case (3 x y ys)
  let ?br = "ascii ''<br>''"
  let ?J = "str_join ?br (y # ys)"
  have J: "settled ?J" using 3 by simp
  have x: "settled x" using 3 by simp
  have br: "nl \<notin> set ?br" "?br \<noteq> []" by (simp_all add: ascii_def nl_def)
  have "\<not> sublist [nl, nl, nl, nl] (x @ ?br @ ?J)"
    using sublist_avoiding_chars[of ?br "[nl, nl, nl, nl]" x ?J] br x J
    by (auto simp: settled_def)
  moreover have "\<not> str_endswith (str_strip (takeWhile (\<lambda>c. c \<noteq> nl) (x @ ?br @ ?J))) (ascii '':'')"
    if "nl \<in> set (x @ ?br @ ?J)"
  proof (cases "nl \<in> set x")
    case True
    then have "takeWhile (\<lambda>c. c \<noteq> nl) (x @ ?br @ ?J) = takeWhile (\<lambda>c. c \<noteq> nl) x"
      by (simp add: takeWhile_append1)
    then show ?thesis using x True by (simp add: settled_def)
  next
    case False
    then have inJ: "nl \<in> set ?J" using that br by auto
    let ?t = "takeWhile (\<lambda>c. c \<noteq> nl) ?J"
    have tw: "takeWhile (\<lambda>c. c \<noteq> nl) ((x @ ?br) @ ?J) = (x @ ?br) @ ?t"
      using False br by (intro takeWhile_append2) auto
    have "?J \<noteq> []" "\<not> isspace (hd ?J)" using J by (simp_all add: settled_def)
    then have t: "?t \<noteq> []" "\<not> isspace (hd ?t)"
      by (cases ?J; auto)+
    have a: "x @ ?br \<noteq> []" "\<not> isspace (hd (x @ ?br))"
      using x by (auto simp: settled_def)
    have "str_strip ((x @ ?br) @ ?t) = (x @ ?br) @ str_strip ?t" and "str_strip ?t \<noteq> []"
      using str_strip_append[OF a t] by simp_all
    moreover have "\<not> str_endswith (str_strip ?t) (ascii '':'')"
      using J inJ by (simp add: settled_def)
    ultimately show ?thesis
      using tw endswith_append[of "str_strip ?t" "x @ ?br" 58] by (simp add: ascii_def)
  qed
  ultimately show ?case
    using x J by (auto simp: settled_def)
qed

subsection \<open>Idempotence of the formatter\<close>

lemma settled_fixed:
  assumes "settled y" and "\<forall>c \<in> set y. \<not> bullet_glyph c"
    and "\<not> str_contains (ascii ''[STRENGTH]'') y" and "\<not> str_contains (ascii ''[WEAKNESS]'') y"
  shows "format_analysis_result y = y"
proof -
  have ne: "y \<noteq> []" and strip: "str_strip y = y"
    using assms(1) str_strip_fixed by (auto simp: settled_def)
  have g: "42 \<notin> set y" "43 \<notin> set y" "bullet \<notin> set y"
    using assms(2) by (auto simp: bullet_glyph_def)
  have r1: "str_replace (ascii ''*'') [] y = y" "str_replace (ascii ''+'') [] y = y"
    "str_replace [bullet] [] y = y"
    using g by (simp_all add: ascii_def str_replace_absent str_contains_single)
  have r2: "str_replace (ascii ''[STRENGTH]'') [] y = y"
    "str_replace (ascii ''[WEAKNESS]'') [] y = y"
    using assms(3,4) by (simp_all add: str_replace_absent)
  have sp: "str_split [nl, nl, nl, nl] y = [y]"
    using assms(1) by (simp add: settled_def str_split_absent str_contains_sublist)
  have "format_section y = [y]"
  proof (cases "str_endswith (str_strip (hd (str_split [nl] y))) (ascii '':'')")
    case True
    then have "nl \<notin> set y"
      using assms(1) by (auto simp: settled_def hd_str_split_char)
    then have "str_split [nl] y = [y]"
      by (simp add: str_split_absent str_contains_single)
    then show ?thesis using ne strip True by (simp add: format_section_def)
  next
    case False
    then show ?thesis using ne strip by (simp add: format_section_def Let_def)
  qed
  then show ?thesis
    using ne by (simp add: format_analysis_result_def r1 r2 sp)
qed

lemma format_output_settled:
  assumes "x \<noteq> []" and "format_analysis_result x \<noteq> []"
  shows "settled (format_analysis_result x)"
    and "\<forall>c \<in> set (format_analysis_result x). \<not> bullet_glyph c"
proof -
  let ?c1 = "str_replace (ascii ''*'') [] x"
  let ?c2 = "str_replace (ascii ''+'') [] ?c1"
  let ?c3 = "str_replace [bullet] [] ?c2"
  let ?c4 = "str_replace (ascii ''*'') [] ?c3"
  let ?c5 = "str_replace (ascii ''[STRENGTH]'') [] ?c4"
  let ?c6 = "str_replace (ascii ''[WEAKNESS]'') [] ?c5"
  let ?L = "concat (map format_section (str_split [nl, nl, nl, nl] ?c6))"
  have y: "format_analysis_result x = str_join (ascii ''<br>'') ?L"
    using assms(1) by (simp add: format_analysis_result_def)
  have "43 \<notin> set ?c2" "bullet \<notin> set ?c3" "42 \<notin> set ?c4"
    using str_replace_removes_char[of 43 ?c1] str_replace_removes_char[of bullet ?c2]
      str_replace_removes_char[of 42 ?c3]
    by (simp_all add: ascii_def)
  then have "43 \<notin> set ?c4" "bullet \<notin> set ?c4" "42 \<notin> set ?c4"
    using set_str_replace[of "ascii ''*''" ?c3] set_str_replace[of "[bullet]" ?c2] by auto
  then have "43 \<notin> set ?c6" "bullet \<notin> set ?c6" "42 \<notin> set ?c6"
    using set_str_replace[of "ascii ''[WEAKNESS]''" ?c5] set_str_replace[of "ascii ''[STRENGTH]''" ?c4]
    by auto
  then have c6: "\<forall>c \<in> set ?c6. \<not> bullet_glyph c"
    by (auto simp: bullet_glyph_def)
  have L: "settled e \<and> set e \<subseteq> set ?c6" if "e \<in> set ?L" for e
  proof -
    from that have "e \<in> (\<Union>sec \<in> set (str_split [nl, nl, nl, nl] ?c6). set (format_section sec))"
      by simp
    then obtain sec where sec: "sec \<in> set (str_split [nl, nl, nl, nl] ?c6)"
      and e: "e \<in> set (format_section sec)"
      by blast
    have "\<not> sublist [nl, nl, nl, nl] sec"
      using str_split_pieces_free[OF _ sec] by simp
    then have "settled e" using e format_section_settled by blast
    moreover have "set e \<subseteq> set ?c6"
      using format_section_set[OF e] str_split_pieces_set[OF sec] by blast
    ultimately show ?thesis by simp
  qed
  have "?L \<noteq> []"
  proof
    assume "?L = []"
    then have "str_join (ascii ''<br>'') ?L = []" by (simp only: str_join.simps)
    then show False using assms(2) y by simp
  qed
  then show "settled (format_analysis_result x)"
    using str_join_settled[of ?L] L y by simp
  have "set (format_analysis_result x) \<subseteq> set (ascii ''<br>'') \<union> set ?c6"
    using set_str_join[of "ascii ''<br>''" ?L] L y by auto
  moreover have "\<forall>c \<in> set (ascii ''<br>''). \<not> bullet_glyph c"
    by (simp add: ascii_def bullet_glyph_def bullet_def)
  ultimately show "\<forall>c \<in> set (format_analysis_result x). \<not> bullet_glyph c"
    using c6 by blast
qed

lemma format_placeholder_fixed:
  "format_analysis_result (ascii ''<p>No content to display.</p>'') =
     ascii ''<p>No content to display.</p>''"
  by (simp add: format_analysis_result_def format_section_def str_replace_def str_strip_def
      isspace_def str_endswith_def suffix_to_prefix ascii_def nl_def bullet_def)

text \<open>
  Claim C10, as amended. Re-running \<open>format_analysis_result\<close> on its own output gives
  the same output whenever that output is not empty and holds no tag marker. Both
  conditions are on the first output: an input of whitespace only formats to the empty
  string, which formats to the placeholder, and the removal of a glyph or of a marker can
  bring the pieces of another marker together.
\<close>

theorem format_idempotent:
  assumes "format_analysis_result x \<noteq> []"
    and "\<not> str_contains (ascii ''[STRENGTH]'') (format_analysis_result x)"
    and "\<not> str_contains (ascii ''[WEAKNESS]'') (format_analysis_result x)"
  shows "format_analysis_result (format_analysis_result x) = format_analysis_result x"
proof (cases "x = []")
  case True
  then show ?thesis using format_placeholder_fixed by (simp add: format_analysis_result_def)
next
  case False
  then show ?thesis
    using settled_fixed format_output_settled[OF False assms(1)] assms(2,3) by blast
qed

lemmas ev = format_analysis_result_def format_section_def str_replace_def str_strip_def
      isspace_def str_endswith_def suffix_to_prefix ascii_def nl_def bullet_def

theorem format_idempotent_witness:
  "format_analysis_result (ascii ''Skills:\<newline>- Python *\<newline>\<newline>\<newline>\<newline>\<newline>Good [STRENGTH] x'') \<noteq> [] \<and>
   \<not> str_contains (ascii ''[STRENGTH]'') (format_analysis_result (ascii ''Skills:\<newline>- Python *\<newline>\<newline>\<newline>\<newline>\<newline>Good [STRENGTH] x'')) \<and>
   \<not> str_contains (ascii ''[WEAKNESS]'') (format_analysis_result (ascii ''Skills:\<newline>- Python *\<newline>\<newline>\<newline>\<newline>\<newline>Good [STRENGTH] x'')) \<and>
   format_analysis_result (format_analysis_result (ascii ''Skills:\<newline>- Python *\<newline>\<newline>\<newline>\<newline>\<newline>Good [STRENGTH] x'')) =
     ascii ''Skills:<br>- Python<br>Good  x''"
proof -
  let ?x = "ascii ''Skills:\<newline>- Python *\<newline>\<newline>\<newline>\<newline>\<newline>Good [STRENGTH] x''"
  have v: "format_analysis_result ?x = ascii ''Skills:<br>- Python<br>Good  x''"
    by (simp add: ev)
  have a: "format_analysis_result ?x \<noteq> []" unfolding v by (simp add: ascii_def)
  have b: "\<not> str_contains (ascii ''[STRENGTH]'') (format_analysis_result ?x)"
    unfolding v by (simp add: ascii_def)
  have c: "\<not> str_contains (ascii ''[WEAKNESS]'') (format_analysis_result ?x)"
    unfolding v by (simp add: ascii_def)
  show ?thesis using a b c format_idempotent[OF a b c] v by simp
qed

text \<open>
  Claim C10 as stated fails on already-clean inputs: a single space, and a text whose
  only glyph is inside the text.
\<close>

theorem format_not_idempotent_counterexample:
  "already_clean [32] \<and>
   format_analysis_result (format_analysis_result [32]) \<noteq> format_analysis_result [32] \<and>
   already_clean (ascii ''Good [STREN[WEAK*NESS]GTH] point'') \<and>
   format_analysis_result (format_analysis_result (ascii ''Good [STREN[WEAK*NESS]GTH] point'')) \<noteq>
     format_analysis_result (ascii ''Good [STREN[WEAK*NESS]GTH] point'')"
proof -
  have a: "already_clean [32]"
    by (simp add: already_clean_def bullet_glyph_def bullet_def ascii_def)
  have b: "format_analysis_result [32] = []" by (simp add: ev)
  have c: "format_analysis_result [] = ascii ''<p>No content to display.</p>''"
    by (simp add: format_analysis_result_def)
  have d: "already_clean (ascii ''Good [STREN[WEAK*NESS]GTH] point'')"
    by (simp add: already_clean_def bullet_glyph_def bullet_def ascii_def)
  have e: "format_analysis_result (ascii ''Good [STREN[WEAK*NESS]GTH] point'') = ascii ''Good [STRENGTH] point''"
    by (simp add: ev)
  have f: "format_analysis_result (ascii ''Good [STRENGTH] point'') = ascii ''Good  point''"
    by (simp add: ev)
  show ?thesis using a d by (simp add: b c e f) (simp add: ascii_def)
qed

subsection \<open>Inputs whose formatted output is not empty\<close>

lemma str_strip_nonempty_iff: "str_strip s \<noteq> [] \<longleftrightarrow> (\<exists>c \<in> set s. \<not> isspace c)"
proof
  assume "str_strip s \<noteq> []"
  then have "\<not> isspace (hd (str_strip s))" and "hd (str_strip s) \<in> set (str_strip s)"
    using str_strip_ends(1) by auto
  then show "\<exists>c \<in> set s. \<not> isspace c" using set_str_strip by blast
next
  assume "\<exists>c \<in> set s. \<not> isspace c"
  then obtain c where c: "c \<in> set s" "\<not> isspace c" by blast
  have "s = takeWhile isspace s @ dropWhile isspace s" by simp
  moreover have "c \<notin> set (takeWhile isspace s)" using c(2) by (meson set_takeWhileD)
  ultimately have "c \<in> set (dropWhile isspace s)" using c(1) by (metis Un_iff set_append)
  then have "c \<in> set (rev (dropWhile isspace s))" by simp
  then have "dropWhile isspace (rev (dropWhile isspace s)) \<noteq> []"
    using c(2) by (auto simp: dropWhile_eq_Nil_conv)
  then show "str_strip s \<noteq> []" by (simp add: str_strip_def)
qed

lemma str_split_covers:
  "set s \<subseteq> (\<Union>p \<in> set (str_split sep s). set p) \<union> set sep"
proof (induction sep s rule: str_split.induct)
  case (1 sep)
  then show ?case by simp
next
  case (2 sep c cs)
  show ?case
  proof (cases "sep \<noteq> [] \<and> prefix sep (c # cs)")
    case True
    then have "take (length sep) (c # cs) = sep"
      by (metis append_eq_conv_conj prefix_def)
    then have "set (c # cs) = set sep \<union> set (drop (length sep) (c # cs))"
      by (metis append_take_drop_id set_append)
    then show ?thesis using 2(1) True by auto
  next
    case False
    obtain q qs where q: "str_split sep cs = q # qs"
      by (cases "str_split sep cs") auto
    then show ?thesis using 2(2) False by auto
  qed
qed

lemma format_section_nonempty:
  assumes "\<exists>c \<in> set sec. \<not> isspace c"
  shows "\<exists>e \<in> set (format_section sec). e \<noteq> []"
proof -
  have ne: "str_strip sec \<noteq> []" using assms by (simp add: str_strip_nonempty_iff)
  show ?thesis
  proof (cases "str_endswith (str_strip (hd (str_split [nl] (str_strip sec)))) (ascii '':'')")
    case True
    then have "str_strip (hd (str_split [nl] (str_strip sec))) \<noteq> []"
      by (auto simp: str_endswith_def ascii_def)
    then show ?thesis using ne True by (simp add: format_section_def Let_def)
  next
    case False
    then show ?thesis using ne by (simp add: format_section_def Let_def)
  qed
qed

lemma format_nonempty:
  assumes "\<forall>c \<in> set x. \<not> bullet_glyph c"
    and "\<not> str_contains (ascii ''[STRENGTH]'') x" and "\<not> str_contains (ascii ''[WEAKNESS]'') x"
    and "\<exists>c \<in> set x. \<not> isspace c"
  shows "format_analysis_result x \<noteq> []"
    and "format_analysis_result x =
           str_join (ascii ''<br>'') (concat (map format_section (str_split [nl, nl, nl, nl] x)))"
proof -
  have ne: "x \<noteq> []" using assms(4) by auto
  have g: "42 \<notin> set x" "43 \<notin> set x" "bullet \<notin> set x"
    using assms(1) by (auto simp: bullet_glyph_def)
  have r1: "str_replace (ascii ''*'') [] x = x" "str_replace (ascii ''+'') [] x = x"
    "str_replace [bullet] [] x = x"
    using g by (simp_all add: ascii_def str_replace_absent str_contains_single)
  have r2: "str_replace (ascii ''[STRENGTH]'') [] x = x"
    "str_replace (ascii ''[WEAKNESS]'') [] x = x"
    using assms(2,3) by (simp_all add: str_replace_absent)
  let ?L = "concat (map format_section (str_split [nl, nl, nl, nl] x))"
  show y: "format_analysis_result x = str_join (ascii ''<br>'') ?L"
    using ne by (simp add: format_analysis_result_def r1 r2)
  obtain c where c: "c \<in> set x" "\<not> isspace c" using assms(4) by blast
  then have "c \<notin> set [nl, nl, nl, nl]" by auto
  then obtain sec where sec: "sec \<in> set (str_split [nl, nl, nl, nl] x)" "c \<in> set sec"
    using str_split_covers[of x "[nl, nl, nl, nl]"] c(1) by blast
  then obtain e where "e \<in> set (format_section sec)" "e \<noteq> []"
    using format_section_nonempty c(2) by blast
  then have "e \<in> set ?L" using sec(1) by auto
  then have "?L \<noteq> [] \<and> ?L \<noteq> [[]]" using \<open>e \<noteq> []\<close>
    by (metis empty_iff empty_set set_ConsD)
  then show "format_analysis_result x \<noteq> []"
    using str_join_empty_iff[of "ascii ''<br>''" ?L] by (simp add: y ascii_def)
qed

lemma str_split_pieces_sublist:
  "p \<in> set (str_split sep s) \<Longrightarrow> sublist p s"
proof (induction sep s arbitrary: p rule: str_split.induct)
  case (1 sep)
  then show ?case by simp
next
  case (2 sep c cs)
  show ?case
  proof (cases "sep \<noteq> [] \<and> prefix sep (c # cs)")
    case True
    then have "p = [] \<or> p \<in> set (str_split sep (drop (length sep) (c # cs)))"
      using "2.prems" by auto
    then show ?thesis
    proof
      assume "p = []" then show ?thesis by simp
    next
      assume "p \<in> set (str_split sep (drop (length sep) (c # cs)))"
      then have "sublist p (drop (length sep) (c # cs))" using 2(1) True by blast
      then show ?thesis using sublist_drop sublist_order.order.trans by blast
    qed
  next
    case False
    obtain q qs where q: "str_split sep cs = q # qs"
      by (cases "str_split sep cs") auto
    then have "p = c # q \<or> p \<in> set qs" using "2.prems" False by auto
    then show ?thesis
    proof
      assume "p = c # q"
      moreover have "prefix q cs" using hd_str_split_prefix[of sep cs] q by simp
      ultimately have "prefix p (c # cs)" by simp
      then show ?thesis by (rule prefix_imp_sublist)
    next
      assume "p \<in> set qs"
      then have "sublist p cs" using 2(2) False q by auto
      then show ?thesis by (simp add: sublist_Cons_right)
    qed
  qed
qed

lemma format_section_sublist:
  assumes "e \<in> set (format_section sec)"
  shows "sublist e sec"
proof -
  let ?lines = "str_split [nl] (str_strip sec)"
  have line: "sublist (str_strip p) sec" if "p \<in> set ?lines" for p
    using str_split_pieces_sublist[OF that] str_strip_sublist[of p] str_strip_sublist[of sec]
      sublist_order.order.trans by blast
  have hd_in: "hd ?lines \<in> set ?lines" by simp
  have tl_in: "p \<in> set ?lines" if "p \<in> set (tl ?lines)" for p
    using that by (meson list.set_sel(2) str_split_nonempty)
  show ?thesis
    using assms line[OF hd_in] line[OF tl_in] str_strip_sublist[of sec]
    by (auto simp: format_section_def Let_def split: if_splits)
qed

text \<open>
  The inputs of the amended claim C10 include every text that has a character other than
  whitespace and holds no glyph and no tag marker.
\<close>

lemma format_idempotent_plain:
  assumes "\<forall>c \<in> set x. \<not> bullet_glyph c"
    and "\<not> str_contains (ascii ''[STRENGTH]'') x" and "\<not> str_contains (ascii ''[WEAKNESS]'') x"
    and "\<exists>c \<in> set x. \<not> isspace c"
  shows "format_analysis_result (format_analysis_result x) = format_analysis_result x"
proof -
  let ?L = "concat (map format_section (str_split [nl, nl, nl, nl] x))"
  have ne: "x \<noteq> []" using assms(4) by auto
  note out = format_nonempty[OF assms]
  have pieces: "sublist e x" if "e \<in> set ?L" for e
  proof -
    from that have "e \<in> (\<Union>sec \<in> set (str_split [nl, nl, nl, nl] x). set (format_section sec))"
      by simp
    then obtain sec where "sec \<in> set (str_split [nl, nl, nl, nl] x)" "e \<in> set (format_section sec)"
      by blast
    then show ?thesis
      using format_section_sublist str_split_pieces_sublist sublist_order.order.trans by blast
  qed
  have free: "\<not> sublist m (format_analysis_result x)"
    if absent: "\<not> sublist m x" and apart: "set (ascii ''<br>'') \<inter> set m = {}"
      and some: "m \<noteq> []" for m
  proof
    assume "sublist m (format_analysis_result x)"
    then have "sublist m (str_join (ascii ''<br>'') ?L)" by (simp only: out(2))
    then obtain e where "e \<in> set ?L" "sublist m e"
      using sublist_str_join[of m "ascii ''<br>''" ?L] apart some by (auto simp: ascii_def)
    then show False using pieces absent sublist_order.order.trans by blast
  qed
  have "\<not> sublist (ascii ''[STRENGTH]'') (format_analysis_result x)"
    using free[of "ascii ''[STRENGTH]''"] assms(2) by (simp add: str_contains_sublist ascii_def)
  moreover have "\<not> sublist (ascii ''[WEAKNESS]'') (format_analysis_result x)"
    using free[of "ascii ''[WEAKNESS]''"] assms(3) by (simp add: str_contains_sublist ascii_def)
  ultimately show ?thesis
    using settled_fixed format_output_settled[OF ne out(1)] by (simp add: str_contains_sublist)
qed

section \<open>Properties of the document extractor\<close>

lemma page_preview_keeps [simp]:
  "text_bits (page_preview env b i s) = text_bits s"
  "messages (page_preview env b i s) = messages s"
  by (auto simp: page_preview_def split: sum.splits list.splits)

lemma text_pages_all_return:
  assumes "\<not> list_ex isl pages"
  shows "\<exists>s'. text_pages env b i pages s = (None, s') \<and>
           text_bits s' = text_bits s @ map page_text pages \<and> messages s' = messages s"
  using assms
proof (induction pages arbitrary: i s)
  case Nil
  then show ?case by simp
next
  case (Cons p pages)
  then obtain extracted where p: "p = Inr extracted" by (cases p) auto
  let ?s1 = "page_preview env b i
      (s\<lparr>text_bits := text_bits s @ [case extracted of None \<Rightarrow> [] | Some t \<Rightarrow> t]\<rparr>)"
  obtain s' where "text_pages env b (Suc i) pages ?s1 = (None, s')"
    and "text_bits s' = text_bits ?s1 @ map page_text pages" and "messages s' = messages ?s1"
    using Cons.IH[of "Suc i" ?s1] Cons.prems by auto
  then show ?case
    by (auto simp: p page_text_def split: option.splits)
qed

lemma text_pages_some_raise:
  assumes "list_ex isl pages"
  shows "\<exists>e s'. text_pages env b i pages s = (Some e, s') \<and> messages s' = messages s"
  using assms
proof (induction pages arbitrary: i s)
  case Nil
  then show ?case by simp
next
  case (Cons p pages)
  show ?case
  proof (cases p)
    case (Inl e)
    then show ?thesis by simp
  next
    case (Inr extracted)
    then have "list_ex isl pages" using Cons.prems by simp
    then obtain e s' where
      "text_pages env b (Suc i) pages (page_preview env b i
          (s\<lparr>text_bits := text_bits s @ [case extracted of None \<Rightarrow> [] | Some t \<Rightarrow> t]\<rparr>)) = (Some e, s')"
      and "messages s' = messages (page_preview env b i
          (s\<lparr>text_bits := text_bits s @ [case extracted of None \<Rightarrow> [] | Some t \<Rightarrow> t]\<rparr>))"
      using Cons.IH by blast
    then show ?thesis using Inr by simp
  qed
qed

lemma text_pages_messages: "messages (snd (text_pages env b i pages s)) = messages s"
  by (induction pages arbitrary: i s) (auto split: sum.splits)

lemma ocr_pages_messages: "messages (snd (ocr_pages env i images s)) = messages s"
  by (induction images arbitrary: i s) (auto simp: Let_def split: sum.splits)

lemma ocr_pages_some_raise:
  assumes "list_ex (\<lambda>img. isl (image_to_string env img)) images"
  shows "\<exists>e s'. ocr_pages env i images s = (Some e, s')"
  using assms
proof (induction images arbitrary: i s)
  case Nil
  then show ?case by simp
next
  case (Cons img images)
  show ?case
  proof (cases "image_to_string env img")
    case (Inl e)
    then show ?thesis by (simp add: Let_def)
  next
    case (Inr t)
    then have "list_ex (\<lambda>img. isl (image_to_string env img)) images" using Cons.prems by simp
    then show ?thesis using Cons.IH Inr by (simp add: Let_def)
  qed
qed

lemma ocr_pages_all_return:
  assumes "\<not> list_ex (\<lambda>img. isl (image_to_string env img)) images"
  shows "\<exists>s'. ocr_pages env i images s = (None, s')"
  using assms
proof (induction images arbitrary: i s)
  case Nil
  then show ?case by simp
next
  case (Cons img images)
  then obtain t where "image_to_string env img = Inr t"
    by (cases "image_to_string env img") auto
  then show ?case using Cons by (simp add: Let_def)
qed

lemma text_fallback_returns:
  "\<exists>r. fst (text_fallback env b s) = Inr r"
  by (auto simp: text_fallback_def split: prod.splits sum.splits)

lemma text_fallback_fails:
  assumes "text_layer_fails env b"
  shows "\<exists>e. text_fallback env b s =
     (Inr ([], []), messages s @ [Error (ascii ''Could not extract anything from this PDF: '' @ str_exn e)])"
proof (cases "pdf_pages env b")
  case (Inl e)
  then show ?thesis by (auto simp: text_fallback_def text_route_def)
next
  case (Inr pages)
  then have "list_ex isl pages" using assms by (simp add: text_layer_fails_def)
  then obtain e s' where "text_pages env b 0 pages s = (Some e, s')" "messages s' = messages s"
    using text_pages_some_raise by blast
  then show ?thesis using Inr by (auto simp: text_fallback_def text_route_def)
qed

lemma text_fallback_succeeds:
  assumes "\<not> text_layer_fails env b"
  shows "snd (text_fallback env b s) = messages s"
proof -
  obtain pages where pages: "pdf_pages env b = Inr pages" and "\<not> list_ex isl pages"
    using assms by (auto simp: text_layer_fails_def split: sum.splits)
  then obtain s' where "text_pages env b 0 pages s = (None, s')" "messages s' = messages s"
    using text_pages_all_return by blast
  then show ?thesis using pages by (simp add: text_fallback_def text_route_def)
qed

lemma ocr_route_fails:
  assumes "ocr_fails env b"
  shows "\<exists>e s'. ocr_route env b s = (Inl e, s') \<and> messages s' = messages s"
proof (cases "convert_from_bytes env b")
  case (Inl e)
  then show ?thesis by (simp add: ocr_route_def)
next
  case (Inr images)
  then have "list_ex (\<lambda>img. isl (image_to_string env img)) images"
    using assms by (simp add: ocr_fails_def)
  then obtain e s' where e: "ocr_pages env 0 images s = (Some e, s')"
    using ocr_pages_some_raise by blast
  then have "messages s' = messages s" using ocr_pages_messages[of env 0 images s] by simp
  then show ?thesis using Inr e by (simp add: ocr_route_def)
qed

lemma ocr_route_succeeds:
  assumes "\<not> ocr_fails env b"
  shows "\<exists>r s'. ocr_route env b s = (Inr r, s') \<and> messages s' = messages s"
proof -
  obtain images where images: "convert_from_bytes env b = Inr images"
    and "\<not> list_ex (\<lambda>img. isl (image_to_string env img)) images"
    using assms by (auto simp: ocr_fails_def split: sum.splits)
  then obtain s' where s': "ocr_pages env 0 images s = (None, s')"
    using ocr_pages_all_return by blast
  then have "messages s' = messages s" using ocr_pages_messages[of env 0 images s] by simp
  then show ?thesis using images s' by (simp add: ocr_route_def)
qed

text \<open>
  Claim C1 fails on the code. Without the OCR tools, a PDF of two pages that have no text
  layer gives the text of two newlines, the separator between two empty page texts: it
  is not empty although no page has text, and the caller reports the resume as processed.
  With one such page the text is empty and the caller reports that no text could be
  extracted, which is what the claim says for both.
\<close>

theorem blank_pages_reported_as_text:
  "\<not> USE_PDF2IMAGE blank_pages_env \<and>
   pdf_pages blank_pages_env (getvalue some_pdf) = Inr [Inr None, Inr None] \<and>
   \<not> some_page_has_text [Inr None, Inr None] \<and>
   process_pdf blank_pages_env (Some some_pdf) = (Inr ([nl, nl], []), []) \<and>
   upload_feedback [nl, nl] =
     Markdown (ascii ''<div class=\"success-box\">'' @ [9989] @
       ascii '' Resume uploaded and processed successfully!</div>'') \<and>
   pdf_pages one_blank_page_env (getvalue some_pdf) = Inr [Inr None] \<and>
   process_pdf one_blank_page_env (Some some_pdf) = (Inr ([], []), []) \<and>
   upload_feedback [] =
     Error ([10060] @
       ascii '' Could not extract text from the PDF. Please ensure the file contains readable text.'')"
  by (simp add: blank_pages_env_def one_blank_page_env_def some_pdf_def process_pdf_def
      text_fallback_def text_route_def page_preview_def some_page_has_text_def page_text_def
      upload_feedback_def)

lemma process_pdf_returns: "\<exists>r. fst (process_pdf env uploaded) = Inr r"
proof (cases uploaded)
  case None
  then show ?thesis by (simp add: process_pdf_def)
next
  case (Some f)
  let ?s0 = "\<lparr>text_bits = [], preview = [], messages = []\<rparr>"
  show ?thesis
  proof (cases "file_type f = ascii ''application/pdf'' \<and> USE_PDF2IMAGE env")
    case False
    then show ?thesis
      using Some text_fallback_returns[of env "getvalue f" ?s0]
      by (auto simp: process_pdf_def)
  next
    case True
    obtain x s1 where o: "ocr_route env (getvalue f) ?s0 = (x, s1)"
      by (cases "ocr_route env (getvalue f) ?s0") auto
    show ?thesis
    proof (cases x)
      case (Inr r)
      then show ?thesis using Some True o by (simp add: process_pdf_def)
    next
      case (Inl e)
      then show ?thesis
        using Some True o text_fallback_returns[of env "getvalue f"]
        by (simp add: process_pdf_def)
    qed
  qed
qed

text \<open>
  Claim C4. \<open>process_pdf\<close> never raises: for every environment and every upload it
  returns a pair. When the file is a PDF, the OCR route (if configured) fails and the
  text-layer route fails, the pair is the empty text with the empty preview list, and the
  last message shown is the error "Could not extract anything from this PDF". That error
  is distinct: it is shown in no other case.
\<close>

theorem process_pdf_never_raises:
  "(\<exists>text previews. fst (process_pdf env uploaded) = Inr (text, previews)) \<and>
   (\<forall>f. uploaded = Some f \<and> file_type f = ascii ''application/pdf'' \<and>
        (USE_PDF2IMAGE env \<longrightarrow> ocr_fails env (getvalue f)) \<and>
        text_layer_fails env (getvalue f) \<longrightarrow>
        fst (process_pdf env uploaded) = Inr ([], []) \<and>
        snd (process_pdf env uploaded) \<noteq> [] \<and>
        (\<exists>e. last (snd (process_pdf env uploaded)) =
           Error (ascii ''Could not extract anything from this PDF: '' @ str_exn e))) \<and>
   ((\<exists>t. Error t \<in> set (snd (process_pdf env uploaded))) \<longrightarrow>
      (\<exists>f. uploaded = Some f \<and> file_type f = ascii ''application/pdf'' \<and>
        (USE_PDF2IMAGE env \<longrightarrow> ocr_fails env (getvalue f)) \<and>
        text_layer_fails env (getvalue f)))"
proof -
  have A: "\<exists>text previews. fst (process_pdf env uploaded) = Inr (text, previews)"
    using process_pdf_returns[of env uploaded] by (metis surj_pair)
  have B: "fst (process_pdf env uploaded) = Inr ([], []) \<and>
        snd (process_pdf env uploaded) \<noteq> [] \<and>
        (\<exists>e. last (snd (process_pdf env uploaded)) =
           Error (ascii ''Could not extract anything from this PDF: '' @ str_exn e))"
    if h: "uploaded = Some f \<and> file_type f = ascii ''application/pdf'' \<and>
        (USE_PDF2IMAGE env \<longrightarrow> ocr_fails env (getvalue f)) \<and>
        text_layer_fails env (getvalue f)" for f
  proof -
  let ?s0 = "\<lparr>text_bits = [], preview = [], messages = []\<rparr>"
  have "\<exists>s. process_pdf env uploaded = text_fallback env (getvalue f) s"
  proof (cases "USE_PDF2IMAGE env")
    case True
    then obtain e s' where "ocr_route env (getvalue f) ?s0 = (Inl e, s')"
      using h ocr_route_fails by blast
    then have "process_pdf env uploaded = text_fallback env (getvalue f)
        (s'\<lparr>messages := messages s' @
           [Warning (ascii ''OCR pipeline failed ('' @ str_exn e @ ascii '') '' @
              [8211] @ ascii '' falling back to text extraction'')]\<rparr>)"
      using h True by (simp add: process_pdf_def)
    then show ?thesis by blast
  next
    case False
    then have "process_pdf env uploaded = text_fallback env (getvalue f) ?s0"
      using h by (simp add: process_pdf_def)
    then show ?thesis by blast
  qed
  then obtain s where "process_pdf env uploaded = text_fallback env (getvalue f) s" by blast
  moreover obtain e where "text_fallback env (getvalue f) s =
     (Inr ([], []), messages s @ [Error (ascii ''Could not extract anything from this PDF: '' @ str_exn e)])"
    using h text_fallback_fails by blast
  ultimately have "process_pdf env uploaded =
     (Inr ([], []), messages s @ [Error (ascii ''Could not extract anything from this PDF: '' @ str_exn e)])"
    by simp
  then show ?thesis
    by (simp only: fst_conv snd_conv last_snoc) blast
  qed
  have C: "\<exists>f. uploaded = Some f \<and> file_type f = ascii ''application/pdf'' \<and>
        (USE_PDF2IMAGE env \<longrightarrow> ocr_fails env (getvalue f)) \<and>
        text_layer_fails env (getvalue f)"
    if err: "\<exists>t. Error t \<in> set (snd (process_pdf env uploaded))"
  proof -
  have "\<exists>f. uploaded = Some f \<and> file_type f = ascii ''application/pdf''"
  proof (rule ccontr)
    assume "\<not> (\<exists>f. uploaded = Some f \<and> file_type f = ascii ''application/pdf'')"
    then have "process_pdf env uploaded = (Inr ([], []), [])"
      by (cases uploaded) (simp_all add: process_pdf_def)
    then show False using err by simp
  qed
  then obtain f where f: "uploaded = Some f" "file_type f = ascii ''application/pdf''"
    by blast
  let ?s0 = "\<lparr>text_bits = [], preview = [], messages = []\<rparr>"
  have tl: "text_layer_fails env (getvalue f)" if "\<exists>t. Error t \<in> set (snd (text_fallback env (getvalue f) s))"
    "\<forall>t. Error t \<notin> set (messages s)" for s
  proof (rule ccontr)
    assume "\<not> text_layer_fails env (getvalue f)"
    then have "snd (text_fallback env (getvalue f) s) = messages s"
      by (rule text_fallback_succeeds)
    then show False using that by simp
  qed
  show ?thesis
  proof (cases "USE_PDF2IMAGE env")
    case False
    then have "process_pdf env uploaded = text_fallback env (getvalue f) ?s0"
      using f by (simp add: process_pdf_def)
    then show ?thesis using tl[of ?s0] err f False by simp
  next
    case True
    show ?thesis
    proof (cases "ocr_fails env (getvalue f)")
      case False
      then obtain r s' where "ocr_route env (getvalue f) ?s0 = (Inr r, s')" "messages s' = messages ?s0"
        using ocr_route_succeeds by blast
      then have "snd (process_pdf env uploaded) = []"
        using f True by (simp add: process_pdf_def)
      then show ?thesis using err by simp
    next
      case fails: True
      then obtain e s' where o: "ocr_route env (getvalue f) ?s0 = (Inl e, s')" "messages s' = messages ?s0"
        using ocr_route_fails by blast
      let ?s1 = "s'\<lparr>messages := messages s' @
                             [Warning (ascii ''OCR pipeline failed ('' @ str_exn e @ ascii '') '' @
                                [8211] @ ascii '' falling back to text extraction'')]\<rparr>"
      have "process_pdf env uploaded = text_fallback env (getvalue f) ?s1"
        using f True o by (simp add: process_pdf_def)
      then show ?thesis using tl[of ?s1] err f fails o by simp
    qed
  qed
  qed
  show ?thesis
  proof (intro conjI allI)
    show "\<exists>text previews. fst (process_pdf env uploaded) = Inr (text, previews)" by (rule A)
  qed (use B C in blast)+
qed

theorem process_pdf_never_raises_witness:
  "(\<exists>text previews. fst (process_pdf unreadable_env (Some some_pdf)) = Inr (text, previews)) \<and>
   USE_PDF2IMAGE unreadable_env \<and> ocr_fails unreadable_env (getvalue some_pdf) \<and>
   text_layer_fails unreadable_env (getvalue some_pdf) \<and>
   fst (process_pdf unreadable_env (Some some_pdf)) = Inr ([], []) \<and>
   (\<exists>e. last (snd (process_pdf unreadable_env (Some some_pdf))) =
           Error (ascii ''Could not extract anything from this PDF: '' @ str_exn e)) \<and>
   (\<exists>t. Error t \<in> set (snd (process_pdf unreadable_env (Some some_pdf))))"
proof -
  have a: "file_type some_pdf = ascii ''application/pdf''" by (simp add: some_pdf_def)
  have b: "USE_PDF2IMAGE unreadable_env" by (simp add: unreadable_env_def)
  have c: "ocr_fails unreadable_env (getvalue some_pdf)"
    by (simp add: unreadable_env_def ocr_fails_def)
  have d: "text_layer_fails unreadable_env (getvalue some_pdf)"
    by (simp add: unreadable_env_def text_layer_fails_def)
  note th = process_pdf_never_raises[of unreadable_env "Some some_pdf"]
  have 1: "\<exists>text previews. fst (process_pdf unreadable_env (Some some_pdf)) = Inr (text, previews)"
    using th by (rule conjunct1)
  have "Some some_pdf = Some some_pdf \<and> file_type some_pdf = ascii ''application/pdf'' \<and>
        (USE_PDF2IMAGE unreadable_env \<longrightarrow> ocr_fails unreadable_env (getvalue some_pdf)) \<and>
        text_layer_fails unreadable_env (getvalue some_pdf)"
    using a c d by simp
  then have 2: "fst (process_pdf unreadable_env (Some some_pdf)) = Inr ([], []) \<and>
        snd (process_pdf unreadable_env (Some some_pdf)) \<noteq> [] \<and>
        (\<exists>e. last (snd (process_pdf unreadable_env (Some some_pdf))) =
           Error (ascii ''Could not extract anything from this PDF: '' @ str_exn e))"
    using th[THEN conjunct2, THEN conjunct1, THEN spec, of some_pdf] by (rule rev_mp)
  then have 3: "\<exists>t. Error t \<in> set (snd (process_pdf unreadable_env (Some some_pdf)))"
    by (metis last_in_set)
  show ?thesis using 1 2 3 b c d by (intro conjI) simp_all
qed

section \<open>Properties of the LLM client\<close>

subsection \<open>Reading a response\<close>

lemma bind_exn_Inr: "bind_exn m f = Inr y \<longleftrightarrow> (\<exists>x. m = Inr x \<and> f x = Inr y)"
  by (cases m) (auto simp: bind_exn_def)

lemma py_getitem_str_Inr:
  "py_getitem_str v k = Inr x \<longleftrightarrow> (\<exists>kvs. v = JObj kvs \<and> map_of kvs k = Some x)"
  by (cases v) (auto split: option.splits)

lemma py_getitem_0_Inr:
  "py_getitem_0 v = Inr x \<longleftrightarrow>
     (\<exists>xs. v = JArr (x # xs)) \<or> (\<exists>c cs. v = JStr (c # cs) \<and> x = JStr [c])"
  by (cases v rule: py_getitem_0.cases) auto

lemma py_strip_Inr: "py_strip v = Inr s \<longleftrightarrow> (\<exists>t. v = JStr t \<and> s = str_strip t)"
  by (cases v) auto

lemma read_response_returns:
  "read_response response = Inr (Some x) \<longleftrightarrow>
     (\<exists>t. completion_of response = Some t \<and> 10 < length (str_strip t) \<and> x = str_strip t)"
proof
  assume "read_response response = Inr (Some x)"
  then obtain choices choice msg result where
    c: "py_getitem_str response (ascii ''choices'') = Inr choices"
    and c0: "py_getitem_0 choices = Inr choice"
    and m: "py_getitem_str choice (ascii ''message'') = Inr msg"
    and r: "py_getitem_str msg (ascii ''content'') = Inr result"
    and s: "py_strip result = Inr x" and len: "10 < length x"
    by (auto simp: read_response_def bind_exn_Inr split: if_splits)
  obtain t where t: "result = JStr t" "x = str_strip t" using s py_strip_Inr by blast
  obtain mkvs where mk: "msg = JObj mkvs" "map_of mkvs (ascii ''content'') = Some result"
    using r py_getitem_str_Inr by blast
  obtain ckvs where ck: "choice = JObj ckvs" "map_of ckvs (ascii ''message'') = Some msg"
    using m py_getitem_str_Inr by blast
  obtain xs where xs: "choices = JArr (choice # xs)"
    using c0 ck by (auto simp: py_getitem_0_Inr)
  obtain kvs where kvs: "response = JObj kvs" "map_of kvs (ascii ''choices'') = Some choices"
    using c py_getitem_str_Inr by blast
  have "completion_of response = Some t"
    by (simp add: completion_of_def kvs xs ck mk t)
  then show "\<exists>t. completion_of response = Some t \<and> 10 < length (str_strip t) \<and> x = str_strip t"
    using t len by blast
next
  assume "\<exists>t. completion_of response = Some t \<and> 10 < length (str_strip t) \<and> x = str_strip t"
  then obtain t where t: "completion_of response = Some t" "10 < length (str_strip t)" "x = str_strip t"
    by blast
  from t(1) obtain kvs ckvs xs mkvs where
    kvs: "response = JObj kvs" "map_of kvs (ascii ''choices'') = Some (JArr (JObj ckvs # xs))"
    and ck: "map_of ckvs (ascii ''message'') = Some (JObj mkvs)"
    and mk: "map_of mkvs (ascii ''content'') = Some (JStr t)"
    by (auto simp: completion_of_def split: json.splits option.splits list.splits)
  have "kvs \<noteq> []" using kvs(2) by auto
  moreover have "ascii ''choices'' \<in> fst ` set kvs"
    using map_of_SomeD[OF kvs(2)] by force
  moreover have "t \<noteq> []" using t(2) by (auto simp: str_strip_def)
  ultimately show "read_response response = Inr (Some x)"
    using kvs ck mk t by (simp add: read_response_def bind_exn_def)
qed

lemma failed_attempt_no_result:
  assumes "attempt_fails outcome"
  shows "bind_exn outcome read_response \<noteq> Inr (Some x)"
proof
  assume "bind_exn outcome read_response = Inr (Some x)"
  then obtain response where "outcome = Inr response" "read_response response = Inr (Some x)"
    by (auto simp: bind_exn_Inr)
  then show False
    using assms by (auto simp: read_response_returns attempt_fails_def has_completion_def)
qed

subsection \<open>The retry loop\<close>

lemma attempt_error_cases:
  assumes "attempt_fails outcome"
  shows "(attempt_error outcome = None \<and> bind_exn outcome read_response = Inr None) \<or>
         (\<exists>e. attempt_error outcome = Some e \<and> bind_exn outcome read_response = Inl e)"
proof (cases "bind_exn outcome read_response")
  case (Inl e)
  then show ?thesis by (simp add: attempt_error_def)
next
  case (Inr r)
  then have "r = None" using failed_attempt_no_result[OF assms] by (cases r) auto
  then show ?thesis using Inr by (simp add: attempt_error_def)
qed

text \<open>One iteration of the loop on a failed attempt.\<close>

lemma attempts_failed_step:
  assumes "attempt < max_retries" and "attempt_fails (backend (length (sent s)) (analysis_request key p))"
  shows "attempts backend key p max_retries attempt s =
     (case attempt_error (backend (length (sent s)) (analysis_request key p)) of
        None \<Rightarrow> attempts backend key p max_retries (attempt + 1)
                  (s\<lparr>sent := sent s @ [analysis_request key p]\<rparr>)
      | Some e \<Rightarrow>
          if attempt < max_retries - 1
          then attempts backend key p max_retries (attempt + 1)
                 (s\<lparr>sent := sent s @ [analysis_request key p],
                    last_groq_error := Some (ascii ''Attempt '' @ str_int (attempt + 1) @ ascii '': '' @ str_exn e),
                    shown := shown s @
                      [Info (ascii ''Retrying analysis (attempt '' @ str_int (attempt + 2) @
                         ascii ''/'' @ str_int max_retries @ ascii '')...'')]\<rparr>)
          else (API_FAILED,
                s\<lparr>sent := sent s @ [analysis_request key p],
                  last_groq_error := Some (ascii ''Attempt '' @ str_int (attempt + 1) @ ascii '': '' @ str_exn e),
                  shown := shown s @
                    [Error ([10060] @ ascii '' Analysis failed: '' @
                       (ascii ''Attempt '' @ str_int (attempt + 1) @ ascii '': '' @ str_exn e))] @
                    failure_hints\<rparr>))"
  using attempt_error_cases[OF assms(2)] assms(1)
  by (subst attempts.simps) (auto simp: call_groq_api_def Let_def)

text \<open>
  The loop over outcomes that all fail, \<open>k\<close> iterations from \<open>attempt\<close> on: the result
  and the requests sent.
\<close>

lemma attempts_all_fail:
  assumes "int k = max_retries - attempt"
    and "\<forall>i < k. attempt_fails (backend (length (sent s) + i) (analysis_request key p))"
  shows "fst (attempts backend key p max_retries attempt s) = API_FAILED \<and>
         sent (snd (attempts backend key p max_retries attempt s)) =
           sent s @ replicate k (analysis_request key p) \<and>
         last_groq_error (snd (attempts backend key p max_retries attempt s)) =
           last_error_record attempt
             (map (\<lambda>i. backend (length (sent s) + i) (analysis_request key p)) [0..<k])
             (last_groq_error s)"
  using assms
proof (induction k arbitrary: attempt s)
  case 0
  then show ?case by (subst (1 2 3) attempts.simps) simp
next
  case (Suc k)
  let ?req = "analysis_request key p"
  let ?o = "backend (length (sent s)) ?req"
  have lt: "attempt < max_retries" using Suc.prems(1) by simp
  have f0: "attempt_fails ?o" using Suc.prems(2) by (metis add.right_neutral zero_less_Suc)
  have k: "int k = max_retries - (attempt + 1)" using Suc.prems(1) by simp
  have shift: "map (\<lambda>i. backend (length (sent s) + i) ?req) [0..<Suc k] =
      ?o # map (\<lambda>i. backend (length (sent s) + 1 + i) ?req) [0..<k]"
    by (simp add: upt_conv_Cons map_Suc_upt[symmetric] del: upt_Suc)
  have rest: "\<forall>i < k. attempt_fails (backend (length (sent s') + i) ?req)"
    if "sent s' = sent s @ [?req]" for s'
    using Suc.prems(2) that by (metis Suc_less_eq add_Suc_right add_Suc length_append_singleton)
  note step = attempts_failed_step[of attempt max_retries backend s key p, OF lt f0]
  show ?case
  proof (cases "attempt_error ?o")
    case None
    let ?s1 = "s\<lparr>sent := sent s @ [?req]\<rparr>"
    have "attempts backend key p max_retries attempt s =
        attempts backend key p max_retries (attempt + 1) ?s1"
      using step None by simp
    moreover note Suc.IH[OF k rest[of ?s1]]
    ultimately show ?thesis
      by (simp add: shift None replicate_app_Cons_same del: upt_Suc)
  next
    case (Some e)
    show ?thesis
    proof (cases "attempt < max_retries - 1")
      case True
      let ?s1 = "s\<lparr>sent := sent s @ [?req],
                    last_groq_error := Some (ascii ''Attempt '' @ str_int (attempt + 1) @ ascii '': '' @ str_exn e),
                    shown := shown s @
                      [Info (ascii ''Retrying analysis (attempt '' @ str_int (attempt + 2) @
                         ascii ''/'' @ str_int max_retries @ ascii '')...'')]\<rparr>"
      have "attempts backend key p max_retries attempt s =
          attempts backend key p max_retries (attempt + 1) ?s1"
        using step Some True by simp
      moreover note Suc.IH[OF k rest[of ?s1]]
      ultimately show ?thesis
        by (simp add: shift Some replicate_app_Cons_same del: upt_Suc)
    next
      case False
      then have "k = 0" using Suc.prems(1) by simp
      then show ?thesis using step Some False by simp
    qed
  qed
qed

lemma attempts_last_raise:
  assumes "int (Suc k) = max_retries - attempt"
    and "\<forall>i < Suc k. attempt_fails (backend (length (sent s) + i) (analysis_request key p))"
    and "attempt_error (backend (length (sent s) + k) (analysis_request key p)) = Some e"
  shows "\<exists>before. shown (snd (attempts backend key p max_retries attempt s)) =
           before @
           [Error ([10060] @ ascii '' Analysis failed: '' @
              (ascii ''Attempt '' @ str_int max_retries @ ascii '': '' @ str_exn e))] @
           failure_hints"
  using assms
proof (induction k arbitrary: attempt s)
  case 0
  let ?req = "analysis_request key p"
  have lt: "attempt < max_retries" and last: "\<not> attempt < max_retries - 1"
    and m: "attempt + 1 = max_retries"
    using "0.prems"(1) by simp_all
  have f0: "attempt_fails (backend (length (sent s)) ?req)" using "0.prems"(2) by simp
  have e: "attempt_error (backend (length (sent s)) ?req) = Some e" using "0.prems"(3) by simp
  show ?case
    using attempts_failed_step[of attempt max_retries backend s key p, OF lt f0] e last m
    by simp
next
  case (Suc k)
  let ?req = "analysis_request key p"
  let ?o = "backend (length (sent s)) ?req"
  have lt: "attempt < max_retries" and more: "attempt < max_retries - 1"
    using Suc.prems(1) by simp_all
  have f0: "attempt_fails ?o" using Suc.prems(2) by (metis add.right_neutral zero_less_Suc)
  have k: "int (Suc k) = max_retries - (attempt + 1)" using Suc.prems(1) by simp
  have rest: "\<forall>i < Suc k. attempt_fails (backend (length (sent s') + i) ?req)"
    and lastr: "attempt_error (backend (length (sent s') + k) ?req) = Some e"
    if "sent s' = sent s @ [?req]" for s'
    using Suc.prems(2,3) that
    by (metis Suc_less_eq add_Suc_right add_Suc length_append_singleton)+
  note step = attempts_failed_step[of attempt max_retries backend s key p, OF lt f0]
  show ?case
  proof (cases "attempt_error ?o")
    case None
    let ?s1 = "s\<lparr>sent := sent s @ [?req]\<rparr>"
    have "attempts backend key p max_retries attempt s =
        attempts backend key p max_retries (attempt + 1) ?s1"
      using step None by simp
    then show ?thesis using Suc.IH[OF k rest[of ?s1] lastr[of ?s1]] by simp
  next
    case (Some e')
    let ?s1 = "s\<lparr>sent := sent s @ [?req],
                    last_groq_error := Some (ascii ''Attempt '' @ str_int (attempt + 1) @ ascii '': '' @ str_exn e'),
                    shown := shown s @
                      [Info (ascii ''Retrying analysis (attempt '' @ str_int (attempt + 2) @
                         ascii ''/'' @ str_int max_retries @ ascii '')...'')]\<rparr>"
    have "attempts backend key p max_retries attempt s =
        attempts backend key p max_retries (attempt + 1) ?s1"
      using step Some more by simp
    then show ?thesis using Suc.IH[OF k rest[of ?s1] lastr[of ?s1]] by simp
  qed
qed

lemma analyze_runs_loop:
  assumes "groq_api_key s = Some key" and "key \<noteq> []" and "\<not> known_unreachable s"
  shows "analyze_resume_with_llm backend p max_retries s = attempts backend key p max_retries 0 s"
proof -
  have "\<not> ((case api_tested s of None \<Rightarrow> False | Some b \<Rightarrow> b) \<and>
           \<not> (case api_working s of None \<Rightarrow> True | Some b \<Rightarrow> b))"
    using assms(3) by (auto simp: known_unreachable_def split: option.splits)
  then show ?thesis using assms(1,2) by (auto simp: analyze_resume_with_llm_def)
qed

text \<open>
  Claim C5. With a configured credential, a backend not recorded as unreachable and a
  backend on which every attempt fails (the call raises, or the response has no completion
  of trimmed length above 10), \<open>analyze_resume_with_llm\<close> sends the same request exactly
  \<open>max_retries\<close> times, one after the other, and returns the failure value \<open>API_FAILED\<close>;
  with the default of 3 that is three requests. (For a negative \<open>max_retries\<close> the loop
  does not run: \<open>nat\<close> gives zero requests.)
\<close>

theorem retry_bound:
  assumes "groq_api_key s = Some key" and "key \<noteq> []" and "\<not> known_unreachable s"
    and "\<forall>n. attempt_fails (backend n (analysis_request key p))"
  shows "fst (analyze_resume_with_llm backend p max_retries s) = API_FAILED \<and>
         sent (snd (analyze_resume_with_llm backend p max_retries s)) =
           sent s @ replicate (nat max_retries) (analysis_request key p) \<and>
         length (sent (snd (analyze_resume_with_llm backend p default_max_retries s))) =
           length (sent s) + 3"
proof -
  have run: "fst (attempts backend key p m 0 s) = API_FAILED \<and>
      sent (snd (attempts backend key p m 0 s)) = sent s @ replicate (nat m) (analysis_request key p)"
    for m
  proof (cases "0 \<le> m")
    case True
    then have "int (nat m) = m - 0" by simp
    then show ?thesis using attempts_all_fail[of "nat m" m 0 backend s key p] assms(4) by simp
  next
    case False
    then show ?thesis by (subst (1 2) attempts.simps) simp
  qed
  show ?thesis
    using run[of max_retries] run[of default_max_retries]
    by (simp add: analyze_runs_loop[OF assms(1,2,3)] default_max_retries_def)
qed

lemma ready_session_facts:
  "groq_api_key ready_session = Some (ascii ''gsk_test'')" "ascii ''gsk_test'' \<noteq> []"
  "\<not> known_unreachable ready_session" "sent ready_session = []"
  "last_groq_error ready_session = None" "shown ready_session = []"
  by (simp_all add: ready_session_def known_unreachable_def ascii_def)

lemma down_backend_fails: "\<forall>n. attempt_fails (down_backend n r)"
  by (simp add: down_backend_def attempt_fails_def)

lemma down_backend_error: "attempt_error (down_backend n r) = Some (Exception (ascii ''Connection refused''))"
  by (simp add: down_backend_def attempt_error_def bind_exn_def)

theorem retry_bound_witness:
  "groq_api_key ready_session = Some (ascii ''gsk_test'') \<and> ascii ''gsk_test'' \<noteq> [] \<and>
   \<not> known_unreachable ready_session \<and>
   (\<forall>n. attempt_fails (down_backend n (analysis_request (ascii ''gsk_test'') (ascii ''Analyze'')))) \<and>
   fst (analyze_resume_with_llm down_backend (ascii ''Analyze'') 3 ready_session) = API_FAILED \<and>
   sent (snd (analyze_resume_with_llm down_backend (ascii ''Analyze'') 3 ready_session)) =
     [analysis_request (ascii ''gsk_test'') (ascii ''Analyze''),
      analysis_request (ascii ''gsk_test'') (ascii ''Analyze''),
      analysis_request (ascii ''gsk_test'') (ascii ''Analyze'')]"
  using retry_bound[where s = ready_session and key = "ascii ''gsk_test''" and backend = down_backend
      and p = "ascii ''Analyze''" and max_retries = 3]
    ready_session_facts down_backend_fails
  by (simp add: numeral_3_eq_3)

lemma attempt_error_Some:
  "attempt_error outcome = Some e \<longleftrightarrow> bind_exn outcome read_response = Inl e"
  by (auto simp: attempt_error_def split: sum.splits)

text \<open>One iteration of the loop on an attempt that raises, and on one that returns.\<close>

lemma attempts_raise_step:
  assumes "attempt < max_retries"
    and "attempt_error (backend (length (sent s)) (analysis_request key p)) = Some e"
  shows "attempts backend key p max_retries attempt s =
     (if attempt < max_retries - 1
      then attempts backend key p max_retries (attempt + 1)
             (s\<lparr>sent := sent s @ [analysis_request key p],
                last_groq_error := Some (attempt_record attempt e),
                shown := shown s @
                  [Info (ascii ''Retrying analysis (attempt '' @ str_int (attempt + 2) @
                     ascii ''/'' @ str_int max_retries @ ascii '')...'')]\<rparr>)
      else (API_FAILED,
            s\<lparr>sent := sent s @ [analysis_request key p],
              last_groq_error := Some (attempt_record attempt e),
              shown := shown s @
                [Error ([10060] @ ascii '' Analysis failed: '' @ attempt_record attempt e)] @
                failure_hints\<rparr>))"
  using assms
  by (subst attempts.simps)
    (simp add: attempt_error_Some call_groq_api_def Let_def attempt_record_def)

lemma attempts_success_step:
  assumes "attempt < max_retries"
    and "bind_exn (backend (length (sent s)) (analysis_request key p)) read_response = Inr (Some r)"
  shows "attempts backend key p max_retries attempt s =
           (r, s\<lparr>sent := sent s @ [analysis_request key p]\<rparr>)"
  using assms by (subst attempts.simps) (simp add: call_groq_api_def)

text \<open>
  A run of the loop from \<open>attempt\<close> on in which the next \<open>n\<close> attempts fail and the one
  after them, if the loop gets to it, returns a result.
\<close>

lemma attempts_run:
  assumes "int n \<le> max_retries - attempt"
    and "\<forall>i < n. attempt_fails (backend (length (sent s) + i) (analysis_request key p))"
    and "int n < max_retries - attempt \<longrightarrow>
           bind_exn (backend (length (sent s) + n) (analysis_request key p)) read_response = Inr (Some r)"
  shows "fst (attempts backend key p max_retries attempt s) =
           (if int n < max_retries - attempt then r else API_FAILED) \<and>
         last_groq_error (snd (attempts backend key p max_retries attempt s)) =
           last_error_record attempt
             (map (\<lambda>i. backend (length (sent s) + i) (analysis_request key p)) [0..<n])
             (last_groq_error s)"
  using assms
proof (induction n arbitrary: attempt s)
  case 0
  show ?case
  proof (cases "attempt < max_retries")
    case True
    then have "bind_exn (backend (length (sent s)) (analysis_request key p)) read_response = Inr (Some r)"
      using "0.prems"(3) by simp
    then have "attempts backend key p max_retries attempt s =
        (r, s\<lparr>sent := sent s @ [analysis_request key p]\<rparr>)"
      by (rule attempts_success_step[OF True])
    then show ?thesis using True by simp
  next
    case False
    then have "attempts backend key p max_retries attempt s = (API_FAILED, s)"
      by (subst attempts.simps) simp
    then show ?thesis using False by simp
  qed
next
  case (Suc n)
  let ?req = "analysis_request key p"
  let ?o = "backend (length (sent s)) ?req"
  have lt: "attempt < max_retries" using Suc.prems(1) by simp
  have f0: "attempt_fails ?o" using Suc.prems(2)[rule_format, of 0] by simp
  have a: "int n \<le> max_retries - (attempt + 1)" using Suc.prems(1) by simp
  have idx: "(int n < max_retries - (attempt + 1)) = (int (Suc n) < max_retries - attempt)"
    by auto
  have shift: "map (\<lambda>i. backend (length (sent s) + i) ?req) [0..<Suc n] =
      ?o # map (\<lambda>i. backend (length (sent s) + 1 + i) ?req) [0..<n]"
    by (simp add: upt_conv_Cons map_Suc_upt[symmetric] del: upt_Suc)
  have rest: "\<forall>i < n. attempt_fails (backend (length (sent s') + i) ?req)"
    and nxt: "int n < max_retries - (attempt + 1) \<longrightarrow>
        bind_exn (backend (length (sent s') + n) ?req) read_response = Inr (Some r)"
    if s': "sent s' = sent s @ [?req]" for s'
  proof -
    show "\<forall>i < n. attempt_fails (backend (length (sent s') + i) ?req)"
    proof (intro allI impI)
      fix i assume "i < n"
      then have "Suc i < Suc n" by simp
      from Suc.prems(2)[rule_format, OF this] show
        "attempt_fails (backend (length (sent s') + i) ?req)" by (simp add: s')
    qed
    show "int n < max_retries - (attempt + 1) \<longrightarrow>
        bind_exn (backend (length (sent s') + n) ?req) read_response = Inr (Some r)"
      using Suc.prems(3) by (simp add: s')
  qed
  note step = attempts_failed_step[of attempt max_retries backend s key p, OF lt f0]
  show ?case
  proof (cases "attempt_error ?o")
    case None
    let ?s1 = "s\<lparr>sent := sent s @ [?req]\<rparr>"
    have run: "attempts backend key p max_retries attempt s =
        attempts backend key p max_retries (attempt + 1) ?s1"
      using step None by simp
    have s1: "sent ?s1 = sent s @ [?req]" by simp
    note ih = Suc.IH[of "attempt + 1" ?s1, OF a rest[OF s1] nxt[OF s1]]
    show ?thesis unfolding run shift using ih None by (simp add: idx)
  next
    case (Some e)
    show ?thesis
    proof (cases "attempt < max_retries - 1")
      case True
      let ?s1 = "s\<lparr>sent := sent s @ [?req],
                    last_groq_error := Some (ascii ''Attempt '' @ str_int (attempt + 1) @ ascii '': '' @ str_exn e),
                    shown := shown s @
                      [Info (ascii ''Retrying analysis (attempt '' @ str_int (attempt + 2) @
                         ascii ''/'' @ str_int max_retries @ ascii '')...'')]\<rparr>"
      have run: "attempts backend key p max_retries attempt s =
          attempts backend key p max_retries (attempt + 1) ?s1"
        using step Some True by simp
      have s1: "sent ?s1 = sent s @ [?req]" by simp
      note ih = Suc.IH[of "attempt + 1" ?s1, OF a rest[OF s1] nxt[OF s1]]
      show ?thesis unfolding run shift using ih Some by (simp add: idx)
    next
      case False
      then have n: "n = 0" and nlt: "\<not> int (Suc n) < max_retries - attempt"
        using Suc.prems(1) by simp_all
      have run: "attempts backend key p max_retries attempt s =
          (API_FAILED,
           s\<lparr>sent := sent s @ [?req],
             last_groq_error := Some (ascii ''Attempt '' @ str_int (attempt + 1) @ ascii '': '' @ str_exn e),
             shown := shown s @
               [Error ([10060] @ ascii '' Analysis failed: '' @
                  (ascii ''Attempt '' @ str_int (attempt + 1) @ ascii '': '' @ str_exn e))] @
               failure_hints\<rparr>)"
        using step Some False by simp
      show ?thesis unfolding run using nlt n Some by simp
    qed
  qed
qed

text \<open>The record left by a run is that of the most recent attempt that raised.\<close>

lemma last_error_record_silent:
  "\<forall>outcome \<in> set outcomes. attempt_error outcome = None \<Longrightarrow>
   last_error_record i outcomes held = held"
  by (induction outcomes arbitrary: i) simp_all

lemma last_error_record_last:
  assumes "k < length outcomes" and "attempt_error (outcomes ! k) = Some e"
    and "\<forall>i. k < i \<and> i < length outcomes \<longrightarrow> attempt_error (outcomes ! i) = None"
  shows "last_error_record a outcomes held = Some (attempt_record (a + int k) e)"
  using assms
proof (induction outcomes arbitrary: a k held)
  case Nil
  then show ?case by simp
next
  case (Cons outcome outcomes)
  show ?case
  proof (cases k)
    case 0
    have "\<forall>x \<in> set outcomes. attempt_error x = None"
    proof
      fix x assume "x \<in> set outcomes"
      then obtain i where i: "i < length outcomes" "outcomes ! i = x"
        by (auto simp: in_set_conv_nth)
      then have "attempt_error ((outcome # outcomes) ! Suc i) = None"
        using Cons.prems(3)[rule_format, of "Suc i"] 0 by simp
      then show "attempt_error x = None" using i by simp
    qed
    then show ?thesis
      using Cons.prems(2) 0 by (simp add: last_error_record_silent attempt_record_def)
  next
    case (Suc k')
    have 1: "k' < length outcomes" using Cons.prems(1) Suc by simp
    have 2: "attempt_error (outcomes ! k') = Some e" using Cons.prems(2) Suc by simp
    have 3: "\<forall>i. k' < i \<and> i < length outcomes \<longrightarrow> attempt_error (outcomes ! i) = None"
    proof (intro allI impI)
      fix i assume "k' < i \<and> i < length outcomes"
      then have "k < Suc i \<and> Suc i < length (outcome # outcomes)" using Suc by simp
      from Cons.prems(3)[rule_format, OF this] show "attempt_error (outcomes ! i) = None" by simp
    qed
    have "last_error_record (a + 1) outcomes r' = Some (attempt_record (a + 1 + int k') e)" for r'
      by (rule Cons.IH[OF 1 2 3])
    then show ?thesis using Suc by (simp add: add.assoc)
  qed
qed

lemma flaky_backend_facts:
  "attempt_fails (flaky_backend 0 request)"
  "attempt_error (flaky_backend 0 request) = Some (Exception (ascii ''Read timed out''))"
  "bind_exn (flaky_backend (Suc n) request) read_response = Inr (Some (ascii ''OK, detailed analysis...''))"
proof -
  let ?c = "ascii ''OK, detailed analysis...''"
  show "attempt_fails (flaky_backend 0 request)"
    by (simp add: flaky_backend_def attempt_fails_def)
  show "attempt_error (flaky_backend 0 request) = Some (Exception (ascii ''Read timed out''))"
    by (simp add: flaky_backend_def attempt_error_def bind_exn_def)
  have strip: "str_strip ?c = ?c" by (simp add: str_strip_def isspace_def ascii_def)
  have "completion_of (completion_response ?c) = Some ?c"
    by (simp add: completion_response_def completion_of_def ascii_def)
  moreover have "10 < length (str_strip ?c)" unfolding strip by (simp add: ascii_def)
  ultimately have "read_response (completion_response ?c) = Inr (Some ?c)"
    unfolding read_response_returns using strip by simp
  then show "bind_exn (flaky_backend (Suc n) request) read_response = Inr (Some ?c)"
    by (simp add: flaky_backend_def bind_exn_def)
qed

text \<open>
  Claim C6, as amended. With a configured credential and a backend not recorded as
  unreachable, take any run of \<open>analyze_resume_with_llm\<close>: its first \<open>n\<close> attempts fail
  and the run ends there, by the result \<open>r\<close> of the next attempt or, when \<open>n\<close> is
  \<open>max_retries\<close>, by exhaustion. Every iteration of the loop whose request raises an
  exception \<open>x\<close> stores the record "Attempt a+1: text of x" in \<open>_last_groq_error\<close> before the
  loop goes on or returns. So when attempt \<open>k + 1\<close> is the most recent one of the run that
  raised, and it raised \<open>e\<close>, the session returned holds "Attempt k+1: text of e", whether a
  later attempt succeeded or not. When all attempts are exhausted the result is the fixed
  value \<open>API_FAILED\<close>, and when the last attempt is the one that raised, the error message
  shown carries its record.
\<close>

theorem failures_recorded:
  assumes "groq_api_key s = Some key" and "key \<noteq> []" and "\<not> known_unreachable s"
    and "n \<le> nat max_retries"
    and "\<forall>i < n. attempt_fails (backend (length (sent s) + i) (analysis_request key p))"
    and "n < nat max_retries \<longrightarrow>
           bind_exn (backend (length (sent s) + n) (analysis_request key p)) read_response = Inr (Some r)"
    and "k < n"
    and "attempt_error (backend (length (sent s) + k) (analysis_request key p)) = Some e"
    and "\<forall>i. k < i \<and> i < n \<longrightarrow>
           attempt_error (backend (length (sent s) + i) (analysis_request key p)) = None"
  shows "(\<forall>a t x. a < max_retries \<and>
            attempt_error (backend (length (sent t)) (analysis_request key p)) = Some x \<longrightarrow>
            (\<exists>t'. last_groq_error t' = Some (attempt_record a x) \<and>
                  attempts backend key p max_retries a t =
                    (if a < max_retries - 1 then attempts backend key p max_retries (a + 1) t'
                     else (API_FAILED, t')))) \<and>
         last_groq_error (snd (analyze_resume_with_llm backend p max_retries s)) =
           Some (attempt_record (int k) e) \<and>
         fst (analyze_resume_with_llm backend p max_retries s) =
           (if n < nat max_retries then r else API_FAILED) \<and>
         (n = nat max_retries \<and> k = n - 1 \<longrightarrow>
            (\<exists>before. shown (snd (analyze_resume_with_llm backend p max_retries s)) =
               before @
               [Error ([10060] @ ascii '' Analysis failed: '' @ attempt_record (int k) e)] @
               failure_hints))"
proof -
  let ?req = "analysis_request key p"
  let ?os = "map (\<lambda>i. backend (length (sent s) + i) ?req) [0..<n]"
  note loop = analyze_runs_loop[OF assms(1,2,3)]
  have n: "int n \<le> max_retries - 0" using assms(4,7) by linarith
  have lt: "(int n < max_retries - 0) = (n < nat max_retries)" using assms(4,7) by linarith
  have nxt: "int n < max_retries - 0 \<longrightarrow>
      bind_exn (backend (length (sent s) + n) ?req) read_response = Inr (Some r)"
    using assms(6) lt by simp
  note run = attempts_run[of n max_retries 0 backend s key p r, OF n assms(5) nxt]
  have A: "\<exists>t'. last_groq_error t' = Some (attempt_record a x) \<and>
      attempts backend key p max_retries a t =
        (if a < max_retries - 1 then attempts backend key p max_retries (a + 1) t'
         else (API_FAILED, t'))"
    if "a < max_retries" and "attempt_error (backend (length (sent t)) ?req) = Some x" for a t x
  proof (cases "a < max_retries - 1")
    case True
    show ?thesis
      unfolding attempts_raise_step[of a max_retries backend t key p x, OF that]
      by (rule exI[of _ "t\<lparr>sent := sent t @ [?req],
                last_groq_error := Some (attempt_record a x),
                shown := shown t @
                  [Info (ascii ''Retrying analysis (attempt '' @ str_int (a + 2) @
                     ascii ''/'' @ str_int max_retries @ ascii '')...'')]\<rparr>"])
        (simp add: True)
  next
    case False
    show ?thesis
      unfolding attempts_raise_step[of a max_retries backend t key p x, OF that]
      by (rule exI[of _ "t\<lparr>sent := sent t @ [?req],
              last_groq_error := Some (attempt_record a x),
              shown := shown t @
                [Error ([10060] @ ascii '' Analysis failed: '' @ attempt_record a x)] @
                failure_hints\<rparr>"])
        (simp add: False)
  qed
  have "last_error_record 0 ?os (last_groq_error s) = Some (attempt_record (0 + int k) e)"
  proof (rule last_error_record_last)
    show "k < length ?os" using assms(7) by simp
    show "attempt_error (?os ! k) = Some e" using assms(7,8) by simp
    show "\<forall>i. k < i \<and> i < length ?os \<longrightarrow> attempt_error (?os ! i) = None"
      using assms(9) by simp
  qed
  then have B: "last_groq_error (snd (attempts backend key p max_retries 0 s)) =
      Some (attempt_record (int k) e)"
    using run by simp
  have C: "fst (attempts backend key p max_retries 0 s) =
      (if n < nat max_retries then r else API_FAILED)"
    using run lt by simp
  have D: "\<exists>before. shown (snd (attempts backend key p max_retries 0 s)) =
       before @
       [Error ([10060] @ ascii '' Analysis failed: '' @ attempt_record (int k) e)] @
       failure_hints"
    if "n = nat max_retries" and "k = n - 1"
  proof -
    have 1: "int (Suc k) = max_retries - 0" using that assms(4,7) by linarith
    have 2: "\<forall>i < Suc k. attempt_fails (backend (length (sent s) + i) ?req)"
      using assms(5,7) that by simp
    have 3: "int k + 1 = max_retries" using 1 by simp
    show ?thesis
      using attempts_last_raise[of k max_retries 0 backend s key p e, OF 1 2 assms(8)]
      by (simp add: attempt_record_def 3)
  qed
  show ?thesis unfolding loop using A B C D by blast
qed

theorem failures_recorded_witness:
  "groq_api_key ready_session = Some (ascii ''gsk_test'') \<and> ascii ''gsk_test'' \<noteq> [] \<and>
   \<not> known_unreachable ready_session \<and>
   attempt_error (flaky_backend 0 (analysis_request (ascii ''gsk_test'') (ascii ''Analyze''))) =
     Some (Exception (ascii ''Read timed out'')) \<and>
   bind_exn (flaky_backend 1 (analysis_request (ascii ''gsk_test'') (ascii ''Analyze''))) read_response =
     Inr (Some (ascii ''OK, detailed analysis...'')) \<and>
   fst (analyze_resume_with_llm flaky_backend (ascii ''Analyze'') 3 ready_session) =
     ascii ''OK, detailed analysis...'' \<and>
   last_groq_error (snd (analyze_resume_with_llm flaky_backend (ascii ''Analyze'') 3 ready_session)) =
     Some (ascii ''Attempt 1: Read timed out'')"
proof -
  let ?req = "analysis_request (ascii ''gsk_test'') (ascii ''Analyze'')"
  let ?c = "ascii ''OK, detailed analysis...''"
  let ?e = "Exception (ascii ''Read timed out'')"
  have h4: "(1::nat) \<le> nat 3" by simp
  have h5: "\<forall>i < (1::nat). attempt_fails (flaky_backend (length (sent ready_session) + i) ?req)"
    by (simp add: ready_session_facts flaky_backend_facts)
  have h6: "(1::nat) < nat 3 \<longrightarrow>
      bind_exn (flaky_backend (length (sent ready_session) + 1) ?req) read_response = Inr (Some ?c)"
    using flaky_backend_facts(3)[of 0 ?req] by (simp add: ready_session_facts)
  have h7: "(0::nat) < 1" by simp
  have h8: "attempt_error (flaky_backend (length (sent ready_session) + 0) ?req) = Some ?e"
    by (simp add: ready_session_facts flaky_backend_facts)
  have h9: "\<forall>i. 0 < i \<and> i < (1::nat) \<longrightarrow>
      attempt_error (flaky_backend (length (sent ready_session) + i) ?req) = None"
    by simp
  note th = failures_recorded[where s = ready_session and key = "ascii ''gsk_test''"
      and backend = flaky_backend and p = "ascii ''Analyze''" and max_retries = 3
      and n = 1 and k = 0 and r = ?c and e = ?e,
      OF ready_session_facts(1,2,3) h4 h5 h6 h7 h8 h9]
  have rec: "attempt_record (int 0) ?e = ascii ''Attempt 1: Read timed out''"
    by (simp add: attempt_record_def str_int_def ascii_def)
  have 1: "last_groq_error (snd (analyze_resume_with_llm flaky_backend (ascii ''Analyze'') 3 ready_session)) =
      Some (ascii ''Attempt 1: Read timed out'')"
    using th[THEN conjunct2, THEN conjunct1] unfolding rec .
  have 2: "fst (analyze_resume_with_llm flaky_backend (ascii ''Analyze'') 3 ready_session) = ?c"
    using th[THEN conjunct2, THEN conjunct2, THEN conjunct1] by simp
  have 3: "bind_exn (flaky_backend 1 ?req) read_response = Inr (Some ?c)"
    using flaky_backend_facts(3)[of 0 ?req] by simp
  show ?thesis
    using 1 2 3 ready_session_facts(1,2,3) flaky_backend_facts(2)[of ?req]
    by (intro conjI) simp_all
qed

text \<open>
  Claim C6 as stated fails. On an endpoint that cannot be reached all three attempts
  raise "Connection refused"; the value returned is the fixed string \<open>API_FAILED\<close>, which
  does not carry that text.
\<close>

theorem failure_value_without_error_text_counterexample:
  "attempt_error (down_backend 2 (analysis_request (ascii ''gsk_test'') (ascii ''Analyze''))) =
     Some (Exception (ascii ''Connection refused'')) \<and>
   str_exn (Exception (ascii ''Connection refused'')) = ascii ''Connection refused'' \<and>
   fst (analyze_resume_with_llm down_backend (ascii ''Analyze'') 3 ready_session) = API_FAILED \<and>
   \<not> str_contains (ascii ''Connection refused'') API_FAILED"
proof -
  have 1: "fst (analyze_resume_with_llm down_backend (ascii ''Analyze'') 3 ready_session) = API_FAILED"
    unfolding analyze_runs_loop[OF ready_session_facts(1,2,3)]
    using attempts_all_fail[of 3 3 0 down_backend ready_session "ascii ''gsk_test''" "ascii ''Analyze''"]
      down_backend_fails by simp
  have 2: "\<not> str_contains (ascii ''Connection refused'') API_FAILED"
    by (simp add: API_FAILED_def ascii_def)
  show ?thesis using 1 2 by (simp add: down_backend_error)
qed

text \<open>
  A session records the backend as unreachable only through the probe, which runs only
  with a credential: after the probe of a fresh session, unreachable implies configured.
\<close>

lemma probe_unreachable_has_credential:
  assumes "api_tested s = None" and "known_unreachable (startup_probe backend s)"
  shows "credential_configured (startup_probe backend s)"
  using assms
  by (auto simp: startup_probe_def known_unreachable_def credential_configured_def
      call_groq_api_def split: option.splits sum.splits if_splits)

text \<open>
  Claim C7. Without a configured credential \<open>analyze_resume_with_llm\<close> returns the
  missing-key text and leaves the session as it is, so no request is sent; with a
  credential and a backend recorded as unreachable it returns the unavailable text and
  the requests sent are unchanged. Both hold for every prompt, backend and retry count.
  The credential is tested first, as in the source.
\<close>

theorem short_circuits:
  "(\<not> credential_configured s \<longrightarrow>
      analyze_resume_with_llm backend p max_retries s =
        ([9888] @ ascii '' No Groq API key found. Please check your .env file.'', s)) \<and>
   (credential_configured s \<and> known_unreachable s \<longrightarrow>
      fst (analyze_resume_with_llm backend p max_retries s) =
        ascii ''API temporarily unavailable. Please refer to manual analysis guidelines below.'' \<and>
      sent (snd (analyze_resume_with_llm backend p max_retries s)) = sent s)"
  by (auto simp: analyze_resume_with_llm_def credential_configured_def known_unreachable_def
      split: option.splits)

theorem short_circuits_witness:
  "\<not> credential_configured (ready_session\<lparr>groq_api_key := None\<rparr>) \<and>
   analyze_resume_with_llm down_backend (ascii ''Analyze'') 3 (ready_session\<lparr>groq_api_key := None\<rparr>) =
     ([9888] @ ascii '' No Groq API key found. Please check your .env file.'',
      ready_session\<lparr>groq_api_key := None\<rparr>) \<and>
   credential_configured (ready_session\<lparr>api_working := Some False\<rparr>) \<and>
   known_unreachable (ready_session\<lparr>api_working := Some False\<rparr>) \<and>
   fst (analyze_resume_with_llm down_backend (ascii ''Analyze'') 3 (ready_session\<lparr>api_working := Some False\<rparr>)) =
     ascii ''API temporarily unavailable. Please refer to manual analysis guidelines below.'' \<and>
   sent (snd (analyze_resume_with_llm down_backend (ascii ''Analyze'') 3 (ready_session\<lparr>api_working := Some False\<rparr>))) = []"
proof -
  have a: "\<not> credential_configured (ready_session\<lparr>groq_api_key := None\<rparr>)"
    by (simp add: credential_configured_def)
  have b: "credential_configured (ready_session\<lparr>api_working := Some False\<rparr>)"
    by (simp add: credential_configured_def ready_session_def ascii_def)
  have c: "known_unreachable (ready_session\<lparr>api_working := Some False\<rparr>)"
    by (simp add: known_unreachable_def ready_session_def)
  have d: "sent (ready_session\<lparr>api_working := Some False\<rparr>) = []"
    by (simp add: ready_session_def)
  show ?thesis
    using a b c d
      short_circuits[of "ready_session\<lparr>groq_api_key := None\<rparr>" down_backend "ascii ''Analyze''" 3]
      short_circuits[of "ready_session\<lparr>api_working := Some False\<rparr>" down_backend "ascii ''Analyze''" 3]
    by simp
qed

text \<open>
  Claim C9, as amended. With a configured credential, a backend not recorded as
  unreachable and at least one attempt allowed, a first response whose
  \<open>choices[0].message.content\<close> is a string of trimmed length above 10 makes
  \<open>analyze_resume_with_llm\<close> return that content trimmed of surrounding whitespace, after
  exactly one request and with nothing else changed in the session.
\<close>

theorem first_attempt_success:
  assumes "groq_api_key s = Some key" and "key \<noteq> []" and "\<not> known_unreachable s"
    and "0 < max_retries"
    and "backend (length (sent s)) (analysis_request key p) = Inr response"
    and "completion_of response = Some content"
    and "10 < length (str_strip content)"
  shows "analyze_resume_with_llm backend p max_retries s =
           (str_strip content, s\<lparr>sent := sent s @ [analysis_request key p]\<rparr>)"
proof -
  have "read_response response = Inr (Some (str_strip content))"
    using assms(6,7) by (simp add: read_response_returns)
  then have "attempts backend key p max_retries 0 s =
      (str_strip content, s\<lparr>sent := sent s @ [analysis_request key p]\<rparr>)"
    using assms(4,5) by (subst attempts.simps) (simp add: call_groq_api_def bind_exn_def)
  then show ?thesis by (simp add: analyze_runs_loop[OF assms(1,2,3)])
qed

lemma completion_of_response [simp]: "completion_of (completion_response content) = Some content"
  by (simp add: completion_response_def completion_of_def ascii_def)

theorem first_attempt_success_witness:
  "groq_api_key ready_session = Some (ascii ''gsk_test'') \<and> ascii ''gsk_test'' \<noteq> [] \<and>
   \<not> known_unreachable ready_session \<and> (0::int) < 3 \<and>
   answering_backend (ascii ''OK, detailed analysis...'') (length (sent ready_session))
     (analysis_request (ascii ''gsk_test'') (ascii ''Analyze'')) =
     Inr (completion_response (ascii ''OK, detailed analysis...'')) \<and>
   completion_of (completion_response (ascii ''OK, detailed analysis...'')) =
     Some (ascii ''OK, detailed analysis...'') \<and>
   10 < length (str_strip (ascii ''OK, detailed analysis...'')) \<and>
   analyze_resume_with_llm (answering_backend (ascii ''OK, detailed analysis...'')) (ascii ''Analyze'') 3
       ready_session =
     (ascii ''OK, detailed analysis...'',
      ready_session\<lparr>sent := [analysis_request (ascii ''gsk_test'') (ascii ''Analyze'')]\<rparr>)"
proof -
  let ?c = "ascii ''OK, detailed analysis...''"
  have strip: "str_strip ?c = ?c" by (simp add: str_strip_def isspace_def ascii_def)
  have a: "(0::int) < 3" by simp
  have b: "answering_backend ?c (length (sent ready_session))
     (analysis_request (ascii ''gsk_test'') (ascii ''Analyze'')) = Inr (completion_response ?c)"
    by (simp add: answering_backend_def)
  have c: "completion_of (completion_response ?c) = Some ?c" by simp
  have d: "10 < length (str_strip ?c)" unfolding strip by (simp add: ascii_def)
  show ?thesis
    using first_attempt_success[where s = ready_session and key = "ascii ''gsk_test''"
        and backend = "answering_backend ?c" and p = "ascii ''Analyze''" and max_retries = 3
        and response = "completion_response ?c" and content = ?c,
        OF ready_session_facts(1,2,3) a b c d]
      ready_session_facts a b c d
    by (simp add: strip)
qed

text \<open>
  Claim C9 as stated fails on a content with surrounding whitespace: the value returned
  is the trimmed content, not the content.
\<close>

theorem trimmed_content_counterexample:
  "completion_of (completion_response (ascii ''  OK, detailed analysis...'')) =
     Some (ascii ''  OK, detailed analysis...'') \<and>
   10 < length (str_strip (ascii ''  OK, detailed analysis...'')) \<and>
   fst (analyze_resume_with_llm (answering_backend (ascii ''  OK, detailed analysis...''))
          (ascii ''Analyze'') 3 ready_session) = ascii ''OK, detailed analysis...'' \<and>
   ascii ''OK, detailed analysis...'' \<noteq> ascii ''  OK, detailed analysis...''"
proof -
  let ?c = "ascii ''  OK, detailed analysis...''"
  have strip: "str_strip ?c = ascii ''OK, detailed analysis...''"
    by (simp add: str_strip_def isspace_def ascii_def)
  have r: "read_response (completion_response ?c) = Inr (Some (ascii ''OK, detailed analysis...''))"
    unfolding read_response_returns by (simp add: strip) (simp add: ascii_def)
  have "attempts (answering_backend ?c) (ascii ''gsk_test'') (ascii ''Analyze'') 3 0 ready_session =
      (ascii ''OK, detailed analysis...'',
       ready_session\<lparr>sent := sent ready_session @ [analysis_request (ascii ''gsk_test'') (ascii ''Analyze'')]\<rparr>)"
    using r by (subst attempts.simps) (simp add: call_groq_api_def bind_exn_def answering_backend_def)
  then have "fst (analyze_resume_with_llm (answering_backend ?c) (ascii ''Analyze'') 3 ready_session) =
      ascii ''OK, detailed analysis...''"
    by (simp add: analyze_runs_loop[OF ready_session_facts(1,2,3)])
  moreover have "10 < length (str_strip ?c)" unfolding strip by (simp add: ascii_def)
  moreover have "ascii ''OK, detailed analysis...'' \<noteq> ?c" by (simp add: ascii_def)
  ultimately show ?thesis by simp
qed

section \<open>Properties of the Results page\<close>

lemma attempts_keeps:
  "groq_api_key (snd (attempts backend key p max_retries attempt s)) = groq_api_key s \<and>
   api_tested (snd (attempts backend key p max_retries attempt s)) = api_tested s \<and>
   api_working (snd (attempts backend key p max_retries attempt s)) = api_working s"
proof (induction backend key p max_retries attempt s rule: attempts.induct)
  case (1 backend key p max_retries attempt s)
  then show ?case
    by (subst (1 2 3) attempts.simps)
      (auto simp: call_groq_api_def Let_def split: sum.splits option.splits)
qed

lemma analyze_keeps:
  "groq_api_key (snd (analyze_resume_with_llm backend p max_retries s)) = groq_api_key s \<and>
   api_tested (snd (analyze_resume_with_llm backend p max_retries s)) = api_tested s \<and>
   api_working (snd (analyze_resume_with_llm backend p max_retries s)) = api_working s"
  using attempts_keeps by (auto simp: analyze_resume_with_llm_def split: option.splits)


text \<open>A backend on which every attempt fails, whatever the request.\<close>

lemma analyze_all_fail:
  assumes "credential_configured s" and "\<not> known_unreachable s"
    and "\<forall>n request. attempt_fails (backend n request)"
  shows "fst (analyze_resume_with_llm backend p max_retries s) = API_FAILED"
    and "credential_configured (snd (analyze_resume_with_llm backend p max_retries s))"
    and "\<not> known_unreachable (snd (analyze_resume_with_llm backend p max_retries s))"
proof -
  obtain key where key: "groq_api_key s = Some key" "key \<noteq> []"
    using assms(1) by (auto simp: credential_configured_def split: option.splits)
  have loop: "analyze_resume_with_llm backend p max_retries s = attempts backend key p max_retries 0 s"
    using key assms(2) by (rule analyze_runs_loop)
  show "fst (analyze_resume_with_llm backend p max_retries s) = API_FAILED"
  proof (cases "0 \<le> max_retries")
    case True
    then have "int (nat max_retries) = max_retries - 0" by simp
    then show ?thesis
      using attempts_all_fail[of "nat max_retries" max_retries 0 backend s key p] assms(3)
      by (simp add: loop)
  next
    case False
    then show ?thesis unfolding loop by (subst attempts.simps) simp
  qed
  show "credential_configured (snd (analyze_resume_with_llm backend p max_retries s))"
    using assms(1) analyze_keeps[of backend p max_retries s] by (simp add: credential_configured_def)
  show "\<not> known_unreachable (snd (analyze_resume_with_llm backend p max_retries s))"
    using assms(2) analyze_keeps[of backend p max_retries s] by (simp add: known_unreachable_def)
qed

lemma alist_update_fresh:
  "k \<notin> fst ` set al \<Longrightarrow> AList.update k v al = al @ [(k, v)]"
  by (induction al) auto

lemma complete_steps_all_fail:
  assumes "credential_configured s" and "\<not> known_unreachable s"
    and "\<forall>n request. attempt_fails (backend n request)"
    and "\<forall>step \<in> set steps.
           step_full_prompt (snd step) (resume_text page) (job_description page) \<noteq> None"
    and "distinct (map fst steps)" and "set (map fst steps) \<inter> fst ` set (report_data view) = {}"
  shows "panels (fst (complete_steps backend page steps view s)) =
           panels view @ map (\<lambda>step. (fst step, format_analysis_result API_FAILED)) steps \<and>
         report_data (fst (complete_steps backend page steps view s)) =
           report_data view @ map (\<lambda>step. (fst step, API_FAILED)) steps"
  using assms
proof (induction steps arbitrary: view s)
  case Nil
  then show ?case by simp
next
  case (Cons step steps)
  obtain step_name step_key where step: "step = (step_name, step_key)" by (cases step)
  obtain fp where fp: "step_full_prompt step_key (resume_text page) (job_description page) = Some fp"
    using Cons.prems(4) step by auto
  obtain result s1 where r: "analyze_resume_with_llm backend fp default_max_retries s = (result, s1)"
    by (cases "analyze_resume_with_llm backend fp default_max_retries s")
  have res: "result = API_FAILED" "credential_configured s1" "\<not> known_unreachable s1"
    using analyze_all_fail[OF Cons.prems(1,2,3), of fp default_max_retries] r by simp_all
  have fresh: "step_name \<notin> fst ` set (report_data view)"
    using Cons.prems(6) step by auto
  let ?view = "view\<lparr>report_data := AList.update step_name result (report_data view),
                       panels := panels view @ [(step_name, format_analysis_result result)]\<rparr>"
  have upd: "report_data ?view = report_data view @ [(step_name, API_FAILED)]"
    using alist_update_fresh[OF fresh] res(1) by simp
  have "set (map fst steps) \<inter> fst ` set (report_data ?view) = {}"
    using Cons.prems(5,6) step unfolding upd by auto
  then have "panels (fst (complete_steps backend page steps ?view s1)) =
           panels ?view @ map (\<lambda>step. (fst step, format_analysis_result API_FAILED)) steps \<and>
         report_data (fst (complete_steps backend page steps ?view s1)) =
           report_data ?view @ map (\<lambda>step. (fst step, API_FAILED)) steps"
    using Cons.IH[of s1 ?view] res(2,3) Cons.prems(3,4,5) by simp
  then show ?case
    using step fp r res(1) upd by simp
qed

lemma analysis_steps_have_prompts:
  "\<forall>step \<in> set analysis_steps. step_full_prompt (snd step) r jd \<noteq> None"
proof
  fix step assume "step \<in> set analysis_steps"
  then have "(fst step, snd step) \<in> set analysis_steps" by simp
  then obtain pre post where "\<forall>r. step_full_prompt (snd step) r jd = Some (pre @ take 4000 r @ post)"
    using step_full_prompt_frame by blast
  then show "step_full_prompt (snd step) r jd \<noteq> None" by simp
qed

lemma format_API_FAILED: "format_analysis_result API_FAILED = API_FAILED"
  by (simp add: API_FAILED_def ev)

lemma ready_session_usable: "credential_configured ready_session" "\<not> known_unreachable ready_session"
  by (simp_all add: credential_configured_def known_unreachable_def ready_session_def ascii_def)

lemma tips_keys:
  "map fst provide_manual_analysis_tips =
     [ascii ''Quick Overview'', ascii ''Issues Analysis'', ascii ''Enhancement Tips'', ascii ''Job Matching'']"
  by (simp add: provide_manual_analysis_tips_def)

lemma tips_plain:
  assumes "tips \<in> set (map snd provide_manual_analysis_tips)"
  shows "format_analysis_result tips \<noteq> []"
proof -
  have "\<forall>t \<in> set (map snd provide_manual_analysis_tips).
      42 \<notin> set t \<and> 43 \<notin> set t \<and> 8226 \<notin> set t \<and> 91 \<notin> set t \<and> 46 \<in> set t"
    by (simp add: provide_manual_analysis_tips_def ascii_def)
  then have t: "42 \<notin> set tips" "43 \<notin> set tips" "8226 \<notin> set tips" "91 \<notin> set tips"
    "46 \<in> set tips"
    using assms by blast+
  have "\<not> sublist (ascii ''[STRENGTH]'') tips" "\<not> sublist (ascii ''[WEAKNESS]'') tips"
    using t(4) sublist_set_mono[of _ tips] by (fastforce simp: ascii_def)+
  moreover have "\<not> isspace 46" by (simp add: isspace_def)
  ultimately show ?thesis
    using t format_nonempty(1)[of tips]
    by (auto simp: bullet_glyph_def bullet_def str_contains_sublist)
qed

text \<open>
  The single-analysis branch does the mapping: for a kind that has a guidance text, when
  \<open>analyze_resume_with_llm\<close> returns \<open>API_FAILED\<close> on the prompt of the page, the page shows
  the formatted guidance text of that kind, which is not empty, and hands the same text
  to the report.
\<close>

lemma single_analysis_maps_failure:
  assumes "resume_text page \<noteq> []" and "job_description page \<noteq> []"
    and "selected_analysis page = analysis_type"
    and "map_of provide_manual_analysis_tips analysis_type = Some tips"
    and "\<forall>p \<in> set (results_prompts analysis_type (resume_text page) (job_description page)).
           fst (analyze_resume_with_llm backend p default_max_retries s) = API_FAILED"
  shows "panels (fst (results_page backend page s)) = [(analysis_type, format_analysis_result tips)] \<and>
         report_data (fst (results_page backend page s)) = [(analysis_type, tips)] \<and>
         format_analysis_result tips \<noteq> [] \<and>
         tips \<in> set (map snd provide_manual_analysis_tips) \<and>
         length provide_manual_analysis_tips = 4"
proof -
  have pair: "(analysis_type, tips) \<in> set provide_manual_analysis_tips"
    using assms(4) by (rule map_of_SomeD)
  then have tips: "tips \<in> set (map snd provide_manual_analysis_tips)" by force
  have "analysis_type \<in> set (map fst provide_manual_analysis_tips)" using pair by force
  then have kind: "analysis_type \<in> set (map fst analysis_options)"
    "analysis_type \<noteq> ascii ''Complete Analysis''" "analysis_type \<noteq> []"
    unfolding tips_keys analysis_options_keys by (auto simp: ascii_def)
  then obtain d where d: "map_of analysis_options analysis_type = Some d"
    using analysis_options_lookup by blast
  let ?p = "full_prompt (prompt d) (resume_text page) (job_description page)"
  have "results_prompts analysis_type (resume_text page) (job_description page) = [?p]"
    using kind(2) d by (simp add: results_prompts_def)
  then have failed: "fst (analyze_resume_with_llm backend ?p default_max_retries s) = API_FAILED"
    using assms(5) by simp
  obtain result0 s1 where r: "analyze_resume_with_llm backend ?p default_max_retries s = (result0, s1)"
    by (cases "analyze_resume_with_llm backend ?p default_max_retries s")
  then have "result0 = API_FAILED" using failed by simp
  then have "single_analysis backend page analysis_type s =
      (\<lparr>panels = [(analysis_type, format_analysis_result tips)], report_data = [(analysis_type, tips)]\<rparr>,
       s1\<lparr>shown := shown s1 @
          [Warning ([128260] @ ascii '' API temporarily unavailable. Showing manual analysis guidelines:'')]\<rparr>)"
    using d r assms(4) by (simp add: single_analysis_def)
  then have "fst (results_page backend page s) =
      \<lparr>panels = [(analysis_type, format_analysis_result tips)], report_data = [(analysis_type, tips)]\<rparr>"
    using assms(1,2,3) kind(2,3) by (simp add: results_page_def)
  moreover have "format_analysis_result tips \<noteq> []"
    using tips by (rule tips_plain)
  moreover have "length provide_manual_analysis_tips = 4"
    by (simp add: provide_manual_analysis_tips_def)
  ultimately show ?thesis using tips by simp
qed

text \<open>
  Claim C2 fails on the code. On an unreachable endpoint the Complete Analysis branch
  shows the value \<open>API_FAILED\<close> itself in each of its four panels and hands it to the
  report, and there is no guidance text for that kind (four texts, not five); on the same
  endpoint the single-analysis branch shows the guidance text of the kind.
\<close>

theorem complete_analysis_shows_sentinel:
  "length provide_manual_analysis_tips = 4 \<and>
   map_of provide_manual_analysis_tips (ascii ''Complete Analysis'') = None \<and>
   panels (fst (results_page down_backend (sample_page (ascii ''Complete Analysis'')) ready_session)) =
     [(ascii ''Quick Overview'', API_FAILED), (ascii ''Issues Analysis'', API_FAILED),
      (ascii ''Enhancement Tips'', API_FAILED), (ascii ''Job Matching'', API_FAILED)] \<and>
   report_data (fst (results_page down_backend (sample_page (ascii ''Complete Analysis'')) ready_session)) =
     [(ascii ''Quick Overview'', API_FAILED), (ascii ''Issues Analysis'', API_FAILED),
      (ascii ''Enhancement Tips'', API_FAILED), (ascii ''Job Matching'', API_FAILED)] \<and>
   panels (fst (results_page down_backend (sample_page (ascii ''Job Matching'')) ready_session)) =
     [(ascii ''Job Matching'',
       format_analysis_result (the (map_of provide_manual_analysis_tips (ascii ''Job Matching''))))] \<and>
   format_analysis_result (the (map_of provide_manual_analysis_tips (ascii ''Job Matching''))) \<noteq> []"
proof -
  have 1: "length provide_manual_analysis_tips = 4"
    by (simp add: provide_manual_analysis_tips_def)
  have 2: "map_of provide_manual_analysis_tips (ascii ''Complete Analysis'') = None"
    by (simp add: provide_manual_analysis_tips_def ascii_def)
  have page: "resume_text (sample_page k) \<noteq> []" "job_description (sample_page k) \<noteq> []"
    "selected_analysis (sample_page k) = k" for k
    by (simp_all add: sample_page_def ascii_def)
  have down: "\<forall>n request. attempt_fails (down_backend n request)"
    by (simp add: down_backend_def attempt_fails_def)
  have names: "distinct (map fst analysis_steps)"
    by (simp add: analysis_steps_def ascii_def)
  have "panels (fst (complete_steps down_backend (sample_page (ascii ''Complete Analysis''))
        analysis_steps \<lparr>panels = [], report_data = []\<rparr> ready_session)) =
      map (\<lambda>step. (fst step, format_analysis_result API_FAILED)) analysis_steps \<and>
    report_data (fst (complete_steps down_backend (sample_page (ascii ''Complete Analysis''))
        analysis_steps \<lparr>panels = [], report_data = []\<rparr> ready_session)) =
      map (\<lambda>step. (fst step, API_FAILED)) analysis_steps"
    using complete_steps_all_fail[OF ready_session_usable down analysis_steps_have_prompts names,
        of "\<lparr>panels = [], report_data = []\<rparr>"]
    by simp
  then have 3: "panels (fst (results_page down_backend (sample_page (ascii ''Complete Analysis'')) ready_session)) =
     [(ascii ''Quick Overview'', API_FAILED), (ascii ''Issues Analysis'', API_FAILED),
      (ascii ''Enhancement Tips'', API_FAILED), (ascii ''Job Matching'', API_FAILED)] \<and>
    report_data (fst (results_page down_backend (sample_page (ascii ''Complete Analysis'')) ready_session)) =
     [(ascii ''Quick Overview'', API_FAILED), (ascii ''Issues Analysis'', API_FAILED),
      (ascii ''Enhancement Tips'', API_FAILED), (ascii ''Job Matching'', API_FAILED)]"
    using page[of "ascii ''Complete Analysis''"]
    by (simp add: results_page_def format_API_FAILED analysis_steps_def) (simp add: ascii_def)
  let ?tips = "the (map_of provide_manual_analysis_tips (ascii ''Job Matching''))"
  have d: "map_of provide_manual_analysis_tips (ascii ''Job Matching'') = Some ?tips"
    by (simp add: provide_manual_analysis_tips_def ascii_def)
  have e: "\<forall>p \<in> set (results_prompts (ascii ''Job Matching'')
        (resume_text (sample_page (ascii ''Job Matching'')))
        (job_description (sample_page (ascii ''Job Matching'')))).
      fst (analyze_resume_with_llm down_backend p default_max_retries ready_session) = API_FAILED"
    using down analyze_all_fail(1)[OF ready_session_usable] by blast
  note single = single_analysis_maps_failure[OF page(1,2,3) d e]
  show ?thesis using 1 2 3 single by simp
qed

lemma attempts_sent:
  "set (sent (snd (attempts backend key p max_retries attempt s))) \<subseteq>
     set (sent s) \<union> {analysis_request key p}"
proof (induction backend key p max_retries attempt s rule: attempts.induct)
  case (1 backend key p max_retries attempt s)
  then show ?case
    by (subst attempts.simps)
      (auto simp: call_groq_api_def Let_def split: sum.splits option.splits)
qed

lemma analyze_sent:
  "set (sent (snd (analyze_resume_with_llm backend p max_retries s))) \<subseteq>
     set (sent s) \<union> {analysis_request (the (groq_api_key s)) p}"
  using attempts_sent by (auto simp: analyze_resume_with_llm_def split: option.splits)

lemma complete_steps_sent:
  "set (sent (snd (complete_steps backend page steps view s))) \<subseteq>
     set (sent s) \<union>
     analysis_request (the (groq_api_key s)) `
       {fp. \<exists>step \<in> set steps.
          step_full_prompt (snd step) (resume_text page) (job_description page) = Some fp}"
proof (induction steps arbitrary: view s)
  case Nil
  then show ?case by simp
next
  case (Cons step steps)
  obtain step_name step_key where step: "step = (step_name, step_key)" by (cases step)
  show ?case
  proof (cases "step_full_prompt step_key (resume_text page) (job_description page)")
    case None
    then show ?thesis using Cons.IH[of view s] step by auto
  next
    case (Some fp)
    obtain result s1 where r: "analyze_resume_with_llm backend fp default_max_retries s = (result, s1)"
      by (cases "analyze_resume_with_llm backend fp default_max_retries s")
    have k: "groq_api_key s1 = groq_api_key s"
      using analyze_keeps[of backend fp default_max_retries s] r by simp
    have "set (sent s1) \<subseteq> set (sent s) \<union> {analysis_request (the (groq_api_key s)) fp}"
      using analyze_sent[of backend fp default_max_retries s] r by simp
    then show ?thesis
      using Cons.IH[of "view\<lparr>report_data := AList.update step_name result (report_data view),
                       panels := panels view @ [(step_name, format_analysis_result result)]\<rparr>" s1]
        step Some r k
      by (simp add: subset_iff) blast
  qed
qed

text \<open>
  Every request the Results page sends carries one of the prompts of
  \<open>results_prompts\<close>.
\<close>

lemma results_page_sends_built_prompts:
  "set (sent (snd (results_page backend page s))) \<subseteq>
     set (sent s) \<union>
     analysis_request (the (groq_api_key s)) `
       set (results_prompts (selected_analysis page) (resume_text page) (job_description page))"
proof (cases "resume_text page \<noteq> [] \<and> job_description page \<noteq> [] \<and> selected_analysis page \<noteq> []")
  case False
  then show ?thesis by (auto simp: results_page_def)
next
  case True
  show ?thesis
  proof (cases "selected_analysis page = ascii ''Complete Analysis''")
    case complete: True
    have "{fp. \<exists>step \<in> set analysis_steps.
          step_full_prompt (snd step) (resume_text page) (job_description page) = Some fp} \<subseteq>
        set (results_prompts (ascii ''Complete Analysis'') (resume_text page) (job_description page))"
      by (auto simp: results_prompts_def split: option.splits)
    then show ?thesis
      using True complete
        complete_steps_sent[of backend page analysis_steps "\<lparr>panels = [], report_data = []\<rparr>" s]
      by (simp add: results_page_def) blast
  next
    case single: False
    show ?thesis
    proof (cases "map_of analysis_options (selected_analysis page)")
      case None
      then show ?thesis using True single by (simp add: results_page_def single_analysis_def)
    next
      case (Some d)
      let ?p = "full_prompt (prompt d) (resume_text page) (job_description page)"
      have "set (sent (snd (single_analysis backend page (selected_analysis page) s))) =
          set (sent (snd (analyze_resume_with_llm backend ?p default_max_retries s)))"
        using Some by (auto simp: single_analysis_def split: prod.splits)
      moreover have "results_prompts (selected_analysis page) (resume_text page) (job_description page) = [?p]"
        using Some single by (simp add: results_prompts_def)
      ultimately show ?thesis
        using True single analyze_sent[of backend ?p default_max_retries s]
        by (simp add: results_page_def)
    qed
  qed
qed

section \<open>Properties of the report document\<close>

lemmas ev_report = generate_enhanced_pdf_report_def plain_report_env_def bind_exn_def
  bullet_condition_def py_isdigit_def str_startswith_def str_strip_def isspace_def str_replace_def
  ascii_def nl_def bullet_def

text \<open>
  The \<open>try\<close> of \<open>generate_enhanced_pdf_report\<close> does what its \<open>except\<close> clause says for
  \<open>doc.build\<close>: once the elements are prepared, a failing build gives the empty byte
  string and an error message.
\<close>

lemma report_build_failure_caught:
  assumes "bind_exn (make_paragraph env ([128196] @ ascii '' Resume Analysis Report'') title_style)
             (\<lambda>title. report_sections env sections [title, Spacer 1 20]) = Inr elements"
    and "doc_build env elements = Inl e"
  shows "generate_enhanced_pdf_report env sections =
           (Inr [], [Error (ascii ''Error generating PDF report: '' @ str_exn e)])"
  using assms by (simp add: generate_enhanced_pdf_report_def)

text \<open>
  Claim C3 fails on the code: the elements are prepared before the \<open>try\<close>, and a line
  that is a single digit makes \<open>clean_line[1]\<close> raise IndexError, which leaves the
  function. Here the content is what an analysis may return, with a library that accepts
  everything.
\<close>

theorem report_raises_on_single_digit_line:
  "generate_enhanced_pdf_report plain_report_env
     [(ascii ''Job Matching'', ascii ''Match score out of 10:\<newline>7'')] =
   (Inl (IndexError (ascii ''string index out of range'')), [])"
  by (simp add: ev_report)

end
